theory Spec2Isabelle
  imports Complex_Main "HOL-Library.Word" "HOL-Library.Product_Lexorder"
begin

section \<open>Images and the capture provider (PBObotMac.py, capture_window_mac)\<close>

text \<open>
  A region is the Python tuple \<open>(x, y, w, h)\<close> of unbounded integers, relative to
  the top-left corner of the game window. An image is the \<open>H \<times> W \<times> 3\<close> array of
  unsigned bytes that \<open>np.array\<close> makes of an RGB picture: a list of rows of
  \<open>(R, G, B)\<close> pixels.
\<close>

type_synonym region = "int \<times> int \<times> int \<times> int"
type_synonym pixel = "8 word \<times> 8 word \<times> 8 word"
type_synonym image = "pixel list list"
type_synonym gray_image = "8 word list list"

text \<open>
  \<open>Image.crop((left, upper, right, lower))\<close>: the result has \<open>right - left\<close> columns
  and \<open>lower - upper\<close> rows; a position outside the picture reads as black.
\<close>

definition pixel_at :: "image \<Rightarrow> int \<Rightarrow> int \<Rightarrow> pixel" where
  "pixel_at img x y =
     (if 0 \<le> y \<and> y < int (length img) \<and> 0 \<le> x \<and> x < int (length (img ! nat y))
      then img ! nat y ! nat x else (0, 0, 0))"

definition crop :: "image \<Rightarrow> int \<times> int \<times> int \<times> int \<Rightarrow> image" where
  "crop img box =
     (let (left, upper, right, lower) = box
      in map (\<lambda>j. map (\<lambda>i. pixel_at img (left + int i) (upper + int j))
                [0..<nat (right - left)]) [0..<nat (lower - upper)])"

text \<open>
  \<open>capture_window_mac(window_id, window_bounds, region)\<close>. The window system's answer
  to \<open>CGWindowListCreateImage\<close> for the window is the argument \<open>full_image_ref\<close>:
  \<open>None\<close> when no image comes back (window minimized, permission missing), the
  window's picture otherwise, with the alpha channel already dropped as the final
  conversion to RGB does. A region tuple is truthy, so a given region is always
  cropped.
\<close>

definition capture_window_mac :: "image option \<Rightarrow> region option \<Rightarrow> image option" where
  "capture_window_mac full_image_ref region =
     (case full_image_ref of
        None \<Rightarrow> None
      | Some pil_img \<Rightarrow>
          (case region of
             None \<Rightarrow> Some pil_img
           | Some (x, y, w, h) \<Rightarrow>
               (let x2 = x + w; y2 = y + h in Some (crop pil_img (x, y, x2, y2)))))"

section \<open>The encounter detector (PBObotMac.py, is_reddish_in_region)\<close>

text \<open>
  \<open>cv2.cvtColor(img, cv2.COLOR_RGB2BGR)\<close> reverses the channels of every pixel.
  \<open>cv2.inRange(src, lowerb, upperb)\<close> gives 255 where every channel lies between the
  bounds, both ends included, and 0 elsewhere. The bounds are Python integers. The
  library calls are modelled by what they compute on the pixels of an array; errors
  raised inside the libraries are outside the model.
\<close>

definition cvtColor_RGB2BGR :: "image \<Rightarrow> image" where
  "cvtColor_RGB2BGR img = map (map (\<lambda>(r, g, b). (b, g, r))) img"

definition inRange_elem :: "int \<times> int \<times> int \<Rightarrow> int \<times> int \<times> int \<Rightarrow> pixel \<Rightarrow> 8 word" where
  "inRange_elem lowerb upperb px =
     (case (lowerb, upperb, px) of ((l0, l1, l2), (u0, u1, u2), (c0, c1, c2)) \<Rightarrow>
        if l0 \<le> uint c0 \<and> uint c0 \<le> u0 \<and> l1 \<le> uint c1 \<and> uint c1 \<le> u1
           \<and> l2 \<le> uint c2 \<and> uint c2 \<le> u2
        then 255 else 0)"

definition inRange :: "image \<Rightarrow> int \<times> int \<times> int \<Rightarrow> int \<times> int \<times> int \<Rightarrow> gray_image" where
  "inRange src lowerb upperb = map (map (inRange_elem lowerb upperb)) src"

text \<open>The default arguments of \<open>is_reddish_in_region\<close>, in R, G, B order.\<close>

definition lower_thresh_default :: "int \<times> int \<times> int" where
  "lower_thresh_default = (150, 0, 0)"

definition upper_thresh_default :: "int \<times> int \<times> int" where
  "upper_thresh_default = (255, 100, 100)"

text \<open>
  A failed capture answers \<open>False\<close> before any array is built. Otherwise the
  thresholds are reordered to B, G, R and \<open>np.any(mask > 0)\<close> is taken over the mask.
\<close>

definition is_reddish_in_region ::
  "image option \<Rightarrow> region \<Rightarrow> int \<times> int \<times> int \<Rightarrow> int \<times> int \<times> int \<Rightarrow> bool" where
  "is_reddish_in_region full_image_ref region lower_thresh upper_thresh =
     (case capture_window_mac full_image_ref (Some region) of
        None \<Rightarrow> False
      | Some region_img \<Rightarrow>
          (let np_img_bgr = cvtColor_RGB2BGR region_img;
               lower = (snd (snd lower_thresh), fst (snd lower_thresh), fst lower_thresh);
               upper = (snd (snd upper_thresh), fst (snd upper_thresh), fst upper_thresh);
               mask = inRange np_img_bgr lower upper
           in list_ex (list_ex (\<lambda>m. 0 < m)) mask))"

section \<open>Reading the name (PBObotMac.py, get_pokemon_name)\<close>

text \<open>
  \<open>cv2.threshold(gray, 150, 255, cv2.THRESH_BINARY)\<close>: \<open>maxval\<close> where the value is
  greater than the threshold, 0 elsewhere.
\<close>

definition threshold_binary :: "gray_image \<Rightarrow> int \<Rightarrow> 8 word \<Rightarrow> gray_image" where
  "threshold_binary src thresh maxval =
     map (map (\<lambda>v. if uint v > thresh then maxval else 0)) src"

text \<open>
  Strings are lists of characters with code points below 256. \<open>str.strip()\<close> removes
  the characters for which \<open>str.isspace\<close> holds from both ends: code points 9 to 13,
  28 to 32, 133 and 160 in this range.
\<close>

definition is_space :: "char \<Rightarrow> bool" where
  "is_space c = (let n = (of_char c :: nat)
                 in (9 \<le> n \<and> n \<le> 13) \<or> (28 \<le> n \<and> n \<le> 32) \<or> n = 133 \<or> n = 160)"

definition lstrip :: "string \<Rightarrow> string" where
  "lstrip s = dropWhile is_space s"

definition rstrip :: "string \<Rightarrow> string" where
  "rstrip s = rev (dropWhile is_space (rev s))"

definition strip :: "string \<Rightarrow> string" where
  "strip s = rstrip (lstrip s)"

text \<open>
  The two library calls whose results the program only passes on are parameters of
  the model: the grayscale conversion \<open>cv2.cvtColor(img, cv2.COLOR_RGB2GRAY)\<close> and
  the text recognizer \<open>pytesseract.image_to_string(img, config='--psm 7')\<close>.
\<close>

record vision =
  cvtColor_RGB2GRAY :: "image \<Rightarrow> gray_image"
  image_to_string :: "gray_image \<Rightarrow> string"

definition get_pokemon_name :: "vision \<Rightarrow> image option \<Rightarrow> region \<Rightarrow> string" where
  "get_pokemon_name v full_image_ref region =
     (case capture_window_mac full_image_ref (Some region) of
        None \<Rightarrow> []
      | Some im \<Rightarrow>
          (let gray = cvtColor_RGB2GRAY v im;
               binary = threshold_binary gray 150 255;
               text = image_to_string v binary
           in strip text))"

section \<open>Keystrokes and movement (PBObotMac.py, press_key_mac and move_in_bushes)\<close>

text \<open>
  What the worker thread does to the outside world is recorded as a trace of events:
  key events posted to the session, sleeps, lines printed, messages put on the log
  queue, and the notification sound. Two further events mark the two observations
  an iteration of the loop makes: the answer of the encounter detector, and the clock
  reading of the watchdog check.
\<close>

datatype log_msg =
    Bot_thread_started
  | Wild_pokemon_encountered int
  | Encountered_pokemon string
  | Target_pokemon_encountered string
  | Defeating_using_move string
  | Check_window_no_encounters
  | No_encounters_beep
  | Bot_thread_stopping
  | Must_find_window_first
  | Invalid_integer_in_region_fields
  | Starting_bot
  | Could_not_capture_window
  | Calibrated_box int region

datatype event =
    Key_down nat
  | Key_up nat
  | Sleep real
  | Print_unknown_key string
  | Log log_msg
  | Afplay
  | Detector_result bool
  | Watchdog_check real

definition MAC_KEYCODES :: "(string \<times> nat) list" where
  "MAC_KEYCODES =
     [(''left_arrow'', 123), (''right_arrow'', 124), (''down_arrow'', 125), (''up_arrow'', 126),
      (''1'', 18), (''2'', 19), (''3'', 20), (''4'', 21), (''r'', 15)]"

definition press_key_mac :: "string \<Rightarrow> real \<Rightarrow> event list" where
  "press_key_mac key_str hold_time =
     (case map_of MAC_KEYCODES key_str of
        None \<Rightarrow> [Print_unknown_key key_str]
      | Some key_code \<Rightarrow> [Key_down key_code, Sleep hold_time, Key_up key_code])"

text \<open>
  \<open>move_in_bushes\<close> reads and writes the one-element list \<open>last_dir\<close>; the model takes
  the element and returns its new value with the events.
\<close>

definition move_in_bushes :: "int \<Rightarrow> int \<times> event list" where
  "move_in_bushes last_dir =
     (if last_dir = 0 then (1, press_key_mac ''right_arrow'' 0.25)
      else (0, press_key_mac ''left_arrow'' 0.25))"

section \<open>The similarity ratio (difflib.SequenceMatcher, as BotThread._is_similar uses it)\<close>

text \<open>
  \<open>SequenceMatcher(None, a, b).ratio()\<close> of the standard library, with no junk
  predicate and \<open>autojunk\<close> left on. \<open>b2j\<close> maps an element to the increasing list of
  its positions in \<open>b\<close>; when \<open>b\<close> has 200 elements or more, an element that occurs
  more than \<open>len(b) // 100 + 1\<close> times is popular and loses its entry.
\<close>

type_synonym match = "nat \<times> nat \<times> nat"

definition b2j_indices :: "'a list \<Rightarrow> 'a \<Rightarrow> nat list" where
  "b2j_indices b elt = filter (\<lambda>j. b ! j = elt) [0..<length b]"

definition bpopular :: "'a list \<Rightarrow> 'a \<Rightarrow> bool" where
  "bpopular b elt =
     (let n = length b
      in n \<ge> 200 \<and> (let ntest = n div 100 + 1 in length (b2j_indices b elt) > ntest))"

definition b2j :: "'a list \<Rightarrow> 'a \<Rightarrow> nat list" where
  "b2j b elt = (if bpopular b elt then [] else b2j_indices b elt)"

text \<open>
  \<open>find_longest_match(alo, ahi, blo, bhi)\<close>. The dictionary \<open>j2len\<close> is a map;
  \<open>j2len.get(j - 1, 0)\<close> finds nothing for \<open>j = 0\<close>. The inner loop runs over the
  positions of \<open>a[i]\<close> in \<open>b\<close>, skips those below \<open>blo\<close> and stops at the first one
  from \<open>bhi\<close> on; the outer loop runs \<open>i\<close> from \<open>alo\<close> up to \<open>ahi\<close>. The indices
  \<open>i - k + 1\<close> and \<open>j - k + 1\<close> are written \<open>i + 1 - k\<close> and \<open>j + 1 - k\<close> over the
  natural numbers; \<open>inner_loop_bounds\<close> below shows that \<open>k\<close> never exceeds \<open>i + 1\<close>
  minus \<open>alo\<close>, so nothing is cut off.
\<close>

definition j2lenget :: "(nat \<rightharpoonup> nat) \<Rightarrow> nat \<Rightarrow> nat" where
  "j2lenget j2len j =
     (case j of 0 \<Rightarrow> 0 | Suc j' \<Rightarrow> (case j2len j' of None \<Rightarrow> 0 | Some l \<Rightarrow> l))"

fun inner_loop ::
  "nat \<Rightarrow> nat \<Rightarrow> nat \<Rightarrow> (nat \<rightharpoonup> nat) \<Rightarrow> nat list \<Rightarrow> (nat \<rightharpoonup> nat) \<Rightarrow> nat \<Rightarrow> nat \<Rightarrow> nat
     \<Rightarrow> (nat \<rightharpoonup> nat) \<times> match" where
  "inner_loop i blo bhi j2len [] newj2len besti bestj bestsize =
     (newj2len, (besti, bestj, bestsize))"
| "inner_loop i blo bhi j2len (j # js) newj2len besti bestj bestsize =
     (if j < blo then inner_loop i blo bhi j2len js newj2len besti bestj bestsize
      else if j \<ge> bhi then (newj2len, (besti, bestj, bestsize))
      else (let k = j2lenget j2len j + 1
            in if k > bestsize
               then inner_loop i blo bhi j2len js (newj2len(j \<mapsto> k)) (i + 1 - k) (j + 1 - k) k
               else inner_loop i blo bhi j2len js (newj2len(j \<mapsto> k)) besti bestj bestsize))"

function outer_loop ::
  "'a list \<Rightarrow> 'a list \<Rightarrow> nat \<Rightarrow> nat \<Rightarrow> nat \<Rightarrow> nat \<Rightarrow> (nat \<rightharpoonup> nat) \<Rightarrow> nat \<Rightarrow> nat \<Rightarrow> nat \<Rightarrow> match"
  where
  "outer_loop a b ahi blo bhi i j2len besti bestj bestsize =
     (if i < ahi
      then (case inner_loop i blo bhi j2len (b2j b (a ! i)) Map.empty besti bestj bestsize of
              (newj2len, (besti', bestj', bestsize')) \<Rightarrow>
                outer_loop a b ahi blo bhi (Suc i) newj2len besti' bestj' bestsize')
      else (besti, bestj, bestsize))"
  by pat_completeness auto
termination
  by (relation "measure (\<lambda>(a, b, ahi, blo, bhi, i, st). ahi - i)") auto

declare outer_loop.simps [simp del]

text \<open>
  The two loops that extend the best match by elements that are not junk. With no
  junk predicate the junk set is empty, so the two loops that extend by junk
  elements never run and are left out.
\<close>

function extend_back :: "'a list \<Rightarrow> 'a list \<Rightarrow> nat \<Rightarrow> nat \<Rightarrow> nat \<Rightarrow> nat \<Rightarrow> nat \<Rightarrow> match" where
  "extend_back a b alo blo besti bestj bestsize =
     (if besti > alo \<and> bestj > blo \<and> a ! (besti - 1) = b ! (bestj - 1)
      then extend_back a b alo blo (besti - 1) (bestj - 1) (bestsize + 1)
      else (besti, bestj, bestsize))"
  by pat_completeness auto
termination
  by (relation "measure (\<lambda>(a, b, alo, blo, besti, bestj, bestsize). besti)") auto

declare extend_back.simps [simp del]

function extend_forward :: "'a list \<Rightarrow> 'a list \<Rightarrow> nat \<Rightarrow> nat \<Rightarrow> nat \<Rightarrow> nat \<Rightarrow> nat \<Rightarrow> match" where
  "extend_forward a b ahi bhi besti bestj bestsize =
     (if besti + bestsize < ahi \<and> bestj + bestsize < bhi
         \<and> a ! (besti + bestsize) = b ! (bestj + bestsize)
      then extend_forward a b ahi bhi besti bestj (bestsize + 1)
      else (besti, bestj, bestsize))"
  by pat_completeness auto
termination
  by (relation "measure (\<lambda>(a, b, ahi, bhi, besti, bestj, bestsize). ahi - (besti + bestsize))") auto

declare extend_forward.simps [simp del]

definition find_longest_match :: "'a list \<Rightarrow> 'a list \<Rightarrow> nat \<Rightarrow> nat \<Rightarrow> nat \<Rightarrow> nat \<Rightarrow> match" where
  "find_longest_match a b alo ahi blo bhi =
     (case outer_loop a b ahi blo bhi alo Map.empty alo blo 0 of
        (besti, bestj, bestsize) \<Rightarrow>
          (case extend_back a b alo blo besti bestj bestsize of
             (besti, bestj, bestsize) \<Rightarrow> extend_forward a b ahi bhi besti bestj bestsize))"

subsection \<open>The match found lies inside its window\<close>

lemma j2lenget_le:
  "\<forall>j l. j2len j = Some l \<longrightarrow> l \<le> n \<Longrightarrow> j2lenget j2len j \<le> n"
  by (auto simp: j2lenget_def split: nat.splits option.splits)

lemma inner_loop_bounds:
  "alo \<le> i \<Longrightarrow> \<forall>j l. j2len j = Some l \<longrightarrow> l \<le> i - alo \<Longrightarrow>
   \<forall>j l. newj2len j = Some l \<longrightarrow> l \<le> Suc i - alo \<Longrightarrow>
   alo \<le> besti \<Longrightarrow> besti + bestsize \<le> Suc i \<Longrightarrow>
   inner_loop i blo bhi j2len js newj2len besti bestj bestsize = (m, (bi, bj, bs)) \<Longrightarrow>
   (\<forall>j l. m j = Some l \<longrightarrow> l \<le> Suc i - alo) \<and> alo \<le> bi \<and> bi + bs \<le> Suc i"
proof (induction js arbitrary: newj2len besti bestj bestsize)
  case Nil
  then show ?case by simp
next
  case (Cons j js)
  define k where "k = j2lenget j2len j + 1"
  have k: "k \<le> Suc i - alo"
    using j2lenget_le [OF Cons.prems(2), of j] Cons.prems(1) by (simp add: k_def)
  have upd: "\<forall>j' l. (newj2len(j \<mapsto> k)) j' = Some l \<longrightarrow> l \<le> Suc i - alo"
    using Cons.prems(3) k by auto
  have new_best: "alo \<le> i + 1 - k" "i + 1 - k + k \<le> Suc i"
    using k Cons.prems(1) by simp_all
  consider (skip) "j < blo" | (stop) "\<not> j < blo" "j \<ge> bhi"
    | (better) "\<not> j < blo" "\<not> j \<ge> bhi" "k > bestsize"
    | (same) "\<not> j < blo" "\<not> j \<ge> bhi" "\<not> k > bestsize"
    by blast
  then show ?case
  proof cases
    case skip
    with Cons.prems(6) have "inner_loop i blo bhi j2len js newj2len besti bestj bestsize
        = (m, (bi, bj, bs))" by simp
    from Cons.IH [OF Cons.prems(1-5) this] show ?thesis .
  next
    case stop
    with Cons.prems show ?thesis by simp
  next
    case better
    with Cons.prems(6) have "inner_loop i blo bhi j2len js (newj2len(j \<mapsto> k)) (i + 1 - k)
        (j + 1 - k) k = (m, (bi, bj, bs))"
      by (simp add: k_def Let_def)
    from Cons.IH [OF Cons.prems(1,2) upd new_best this] show ?thesis .
  next
    case same
    with Cons.prems(6) have "inner_loop i blo bhi j2len js (newj2len(j \<mapsto> k)) besti bestj
        bestsize = (m, (bi, bj, bs))"
      by (simp add: k_def Let_def)
    from Cons.IH [OF Cons.prems(1,2) upd Cons.prems(4,5) this] show ?thesis .
  qed
qed

lemma outer_loop_bounds:
  "alo \<le> i \<Longrightarrow> \<forall>j l. j2len j = Some l \<longrightarrow> l \<le> i - alo \<Longrightarrow> alo \<le> besti \<Longrightarrow>
   besti + bestsize \<le> i \<Longrightarrow>
   outer_loop a b ahi blo bhi i j2len besti bestj bestsize = (bi, bj, bs) \<Longrightarrow>
   alo \<le> bi \<and> bi + bs \<le> max i ahi"
proof (induction a b ahi blo bhi i j2len besti bestj bestsize rule: outer_loop.induct)
  case (1 a b ahi blo bhi i j2len besti bestj bestsize)
  show ?case
  proof (cases "i < ahi")
    case False
    then show ?thesis using "1.prems" by (simp add: outer_loop.simps [of a b ahi blo bhi i])
  next
    case True
    obtain m ci cj cs where r:
      "inner_loop i blo bhi j2len (b2j b (a ! i)) Map.empty besti bestj bestsize
         = (m, (ci, cj, cs))"
      by (metis prod_cases3)
    have inv: "(\<forall>j l. m j = Some l \<longrightarrow> l \<le> Suc i - alo) \<and> alo \<le> ci \<and> ci + cs \<le> Suc i"
      using "1.prems"(1-4) by (intro inner_loop_bounds [OF _ _ _ _ _ r]) simp_all
    have o: "outer_loop a b ahi blo bhi (Suc i) m ci cj cs = (bi, bj, bs)"
      using "1.prems"(5) True r by (simp add: outer_loop.simps [of a b ahi blo bhi i])
    have "alo \<le> Suc i" using "1.prems"(1) by simp
    with "1.IH" [OF True r [symmetric] refl refl _ _ _ _ o] inv
    have "alo \<le> bi \<and> bi + bs \<le> max (Suc i) ahi" by blast
    moreover have "max (Suc i) ahi = max i ahi" using True by simp
    ultimately show ?thesis by simp
  qed
qed

lemma extend_back_bounds:
  "alo \<le> besti \<Longrightarrow> besti + bestsize \<le> n \<Longrightarrow>
   extend_back a b alo blo besti bestj bestsize = (bi, bj, bs) \<Longrightarrow>
   alo \<le> bi \<and> bi + bs \<le> n"
proof (induction a b alo blo besti bestj bestsize rule: extend_back.induct)
  case (1 a b alo blo besti bestj bestsize)
  show ?case
  proof (cases "besti > alo \<and> bestj > blo \<and> a ! (besti - 1) = b ! (bestj - 1)")
    case True
    have "alo \<le> besti - 1" "besti - 1 + (bestsize + 1) \<le> n"
      using True "1.prems"(1,2) by auto
    moreover have "extend_back a b alo blo (besti - 1) (bestj - 1) (bestsize + 1) = (bi, bj, bs)"
      using "1.prems"(3) True by (simp add: extend_back.simps [of a b alo blo besti])
    ultimately show ?thesis using "1.IH" [OF True] by blast
  next
    case False
    then show ?thesis using "1.prems"
      by (auto simp: extend_back.simps [of a b alo blo besti])
  qed
qed

lemma extend_forward_bounds:
  "alo \<le> besti \<Longrightarrow> besti + bestsize \<le> max alo ahi \<Longrightarrow>
   extend_forward a b ahi bhi besti bestj bestsize = (bi, bj, bs) \<Longrightarrow>
   alo \<le> bi \<and> bi + bs \<le> max alo ahi"
proof (induction a b ahi bhi besti bestj bestsize rule: extend_forward.induct)
  case (1 a b ahi bhi besti bestj bestsize)
  show ?case
  proof (cases "besti + bestsize < ahi \<and> bestj + bestsize < bhi
         \<and> a ! (besti + bestsize) = b ! (bestj + bestsize)")
    case True
    have "besti + (bestsize + 1) \<le> max alo ahi"
      using True by auto
    moreover have "extend_forward a b ahi bhi besti bestj (bestsize + 1) = (bi, bj, bs)"
      using "1.prems"(3) True
      by (simp add: extend_forward.simps [of a b ahi bhi besti bestj bestsize])
    ultimately show ?thesis using "1.IH" [OF True "1.prems"(1)] by blast
  next
    case False
    then show ?thesis using "1.prems"
      by (auto simp: extend_forward.simps [of a b ahi bhi besti bestj bestsize])
  qed
qed

lemma find_longest_match_bounds:
  assumes "find_longest_match a b alo ahi blo bhi = (i, j, k)"
  shows "alo \<le> i \<and> (k \<noteq> 0 \<longrightarrow> i + k \<le> ahi)"
proof -
  obtain bi bj bs where o: "outer_loop a b ahi blo bhi alo Map.empty alo blo 0 = (bi, bj, bs)"
    by (metis prod_cases3)
  have 1: "alo \<le> bi \<and> bi + bs \<le> max alo ahi"
    by (rule outer_loop_bounds [OF _ _ _ _ o]) simp_all
  obtain ci cj cs where e: "extend_back a b alo blo bi bj bs = (ci, cj, cs)"
    by (metis prod_cases3)
  have 2: "alo \<le> ci \<and> ci + cs \<le> max alo ahi"
    using 1 by (intro extend_back_bounds [OF _ _ e]) simp_all
  have f: "extend_forward a b ahi bhi ci cj cs = (i, j, k)"
    using assms by (simp add: find_longest_match_def o e)
  have "alo \<le> i \<and> i + k \<le> max alo ahi"
    using 2 by (intro extend_forward_bounds [OF _ _ f]) simp_all
  then show ?thesis by (auto simp: max_def split: if_splits)
qed

subsection \<open>Matching blocks and the ratio\<close>

text \<open>
  \<open>get_matching_blocks\<close>: the Python list \<open>queue\<close> is used as a stack and is kept here
  with its top first. A window is popped, its longest match is appended to
  \<open>matching_blocks\<close>, and the windows to the left and to the right of the match are
  pushed when both of their sides are not empty. The loop terminates because a match
  of positive size lies inside its window.
\<close>

definition window_size :: "nat \<times> nat \<times> nat \<times> nat \<Rightarrow> nat" where
  "window_size w = (case w of (alo, ahi, blo, bhi) \<Rightarrow> 2 * (ahi - alo) + 1)"

function matching_loop ::
  "'a list \<Rightarrow> 'a list \<Rightarrow> (nat \<times> nat \<times> nat \<times> nat) list \<Rightarrow> match list \<Rightarrow> match list" where
  "matching_loop a b [] matching_blocks = matching_blocks"
| "matching_loop a b ((alo, ahi, blo, bhi) # queue) matching_blocks =
     (case find_longest_match a b alo ahi blo bhi of
        (i, j, k) \<Rightarrow>
          if k \<noteq> 0
          then matching_loop a b
                 ((if i + k < ahi \<and> j + k < bhi then [(i + k, ahi, j + k, bhi)] else []) @
                  (if alo < i \<and> blo < j then [(alo, i, blo, j)] else []) @ queue)
                 (matching_blocks @ [(i, j, k)])
          else matching_loop a b queue matching_blocks)"
  by pat_completeness auto
termination
  apply (relation "measure (\<lambda>(a, b, queue, blocks). sum_list (map window_size queue))")
    apply simp
   apply (simp_all add: window_size_def)
  subgoal premises p for a b alo ahi blo bhi x y xa ya
  proof -
    have "find_longest_match a b alo ahi blo bhi = (x, xa, ya)"
      using p(1,2) by simp
    from find_longest_match_bounds [OF this] p(3) have "alo \<le> x" "x + ya \<le> ahi"
      by auto
    then show ?thesis using p(3) by auto
  qed
  done

text \<open>
  The blocks are sorted, adjacent blocks are merged into one, and the sentinel
  \<open>(len(a), len(b), 0)\<close> is appended.
\<close>

fun collapse :: "nat \<Rightarrow> nat \<Rightarrow> nat \<Rightarrow> match list \<Rightarrow> match list" where
  "collapse i1 j1 k1 [] = (if k1 \<noteq> 0 then [(i1, j1, k1)] else [])"
| "collapse i1 j1 k1 ((i2, j2, k2) # rest) =
     (if i1 + k1 = i2 \<and> j1 + k1 = j2 then collapse i1 j1 (k1 + k2) rest
      else (if k1 \<noteq> 0 then [(i1, j1, k1)] else []) @ collapse i2 j2 k2 rest)"

definition get_matching_blocks :: "'a list \<Rightarrow> 'a list \<Rightarrow> match list" where
  "get_matching_blocks a b =
     (let la = length a; lb = length b;
          matching_blocks = sort (matching_loop a b [(0, la, 0, lb)] [])
      in collapse 0 0 0 matching_blocks @ [(la, lb, 0)])"

text \<open>
  \<open>_calculate_ratio\<close> and \<open>ratio\<close>. The float \<open>2.0 * matches / length\<close> is the exact
  quotient here.
\<close>

definition calculate_ratio :: "nat \<Rightarrow> nat \<Rightarrow> real" where
  "calculate_ratio matches len = (if len \<noteq> 0 then 2 * real matches / real len else 1)"

definition ratio :: "'a list \<Rightarrow> 'a list \<Rightarrow> real" where
  "ratio a b =
     (let matches = sum_list (map (\<lambda>(i, j, k). k) (get_matching_blocks a b))
      in calculate_ratio matches (length a + length b))"

text \<open>
  \<open>str.lower()\<close> on code points below 256: the letters A to Z and the upper-case
  letters of Latin-1 (192 to 222 without the multiplication sign 215) move up by 32.
\<close>

definition lower_char :: "char \<Rightarrow> char" where
  "lower_char c =
     (let n = (of_char c :: nat)
      in if (65 \<le> n \<and> n \<le> 90) \<or> (192 \<le> n \<and> n \<le> 222 \<and> n \<noteq> 215) then char_of (n + 32) else c)"

definition lower :: "string \<Rightarrow> string" where
  "lower s = map lower_char s"

text \<open>\<open>BotThread._is_similar(name, target, threshold)\<close>; pbobotplus.py has the same function.\<close>

definition is_similar :: "string \<Rightarrow> string \<Rightarrow> real \<Rightarrow> bool" where
  "is_similar name target threshold = (ratio (lower name) (lower target) \<ge> threshold)"

section \<open>The worker thread (PBObotMac.py, BotThread.run)\<close>

text \<open>
  The fields of \<open>BotThread\<close> that \<open>run\<close> reads. The window handle and bounds only
  reach the capture calls, whose answers are inputs of the model.
\<close>

record bot =
  pokeball_region :: region
  name_region :: region
  target_pokemons :: "string list"
  move_choice :: string

text \<open>
  The local variables of \<open>run\<close> that live across iterations. Readings of
  \<open>time.time()\<close> and sleep durations are real numbers; the rounding of floats is not
  modelled.
\<close>

record loop_state =
  encounter_count :: int
  last_encounter_time :: real
  next_check_time :: real
  last_dir :: int

text \<open>
  What one iteration of the \<open>while\<close> loop reads from outside: the two event flags
  at the top of the iteration, the window pictures the two captures get, and the
  two readings of \<open>time.time()\<close> (in the encounter branch and at the watchdog check).
  A reading the iteration does not reach is ignored.
\<close>

record tick_env =
  stop_is_set :: bool
  pause_is_set :: bool
  pokeball_frame :: "image option"
  name_frame :: "image option"
  clock_at_encounter :: real
  clock_at_watchdog :: real

text \<open>\<open>BotThread._beep(message)\<close>: start the sound player, then log the message.\<close>

definition beep :: "log_msg \<Rightarrow> event list" where
  "beep message = [Afplay, Log message]"

text \<open>\<open>BotThread.defeat_wild_pokemon\<close>: \<open>move_map.get(self.move_choice, "1")\<close>.\<close>

definition move_map :: "(string \<times> string) list" where
  "move_map = [(''1'', ''1''), (''2'', ''2''), (''3'', ''3''), (''4'', ''4''), (''r'', ''r'')]"

definition defeat_wild_pokemon :: "bot \<Rightarrow> event list" where
  "defeat_wild_pokemon bt =
     (let key_str = (case map_of move_map (move_choice bt) of None \<Rightarrow> ''1'' | Some k \<Rightarrow> k)
      in press_key_mac key_str 0.1)"

text \<open>
  The watchdog check at the end of an iteration (lines 280 to 285): with \<open>now\<close> the
  clock reading, the state after the check and the events of the alert.
\<close>

definition watchdog :: "real \<Rightarrow> loop_state \<Rightarrow> loop_state \<times> event list" where
  "watchdog now s =
     (if now \<ge> next_check_time s
      then (s\<lparr>next_check_time := now + 10\<rparr>,
            (if now - last_encounter_time s \<ge> 10
             then [Log Check_window_no_encounters] @ beep No_encounters_beep
             else []))
      else (s, []))"

text \<open>
  The body of the loop for an iteration that is neither stopped nor paused. The
  result is the new state, the events in the order the statements run, and whether
  the iteration left the loop by \<open>break\<close>.
\<close>

definition loop_body :: "vision \<Rightarrow> bot \<Rightarrow> tick_env \<Rightarrow> loop_state \<Rightarrow> loop_state \<times> event list \<times> bool"
  where
  "loop_body v bt e s =
     (let (d, moved) = move_in_bushes (last_dir s);
          s1 = s\<lparr>last_dir := d\<rparr>;
          reddish = is_reddish_in_region (pokeball_frame e) (pokeball_region bt)
                      lower_thresh_default upper_thresh_default
      in if reddish
         then
           (let s2 = s1\<lparr>encounter_count := encounter_count s1 + 1,
                        last_encounter_time := clock_at_encounter e,
                        next_check_time := clock_at_encounter e + 10\<rparr>;
                pokemon_name = get_pokemon_name v (name_frame e) (name_region bt);
                found = moved @ [Detector_result True,
                                 Log (Wild_pokemon_encountered (encounter_count s2)),
                                 Log (Encountered_pokemon pokemon_name)]
            in if list_ex (\<lambda>t. is_similar pokemon_name t 0.7) (target_pokemons bt)
               then (s2, found @ beep (Target_pokemon_encountered pokemon_name), True)
               else
                 (let fought = found @ [Log (Defeating_using_move (move_choice bt))]
                                 @ defeat_wild_pokemon bt @ [Sleep 0.1];
                      now = clock_at_watchdog e;
                      (s3, alert) = watchdog now s2
                  in (s3, fought @ [Watchdog_check now] @ alert @ [Sleep 0.1], False)))
         else
           (let now = clock_at_watchdog e;
                (s3, alert) = watchdog now s1
            in (s3, moved @ [Detector_result False, Watchdog_check now] @ alert @ [Sleep 0.1],
                False)))"

text \<open>
  The condition under which the body leaves the loop: the detector is active and
  the name read matches some target.
\<close>

definition target_matched :: "vision \<Rightarrow> bot \<Rightarrow> tick_env \<Rightarrow> bool" where
  "target_matched v bt e \<longleftrightarrow>
     is_reddish_in_region (pokeball_frame e) (pokeball_region bt)
       lower_thresh_default upper_thresh_default
     \<and> list_ex (\<lambda>t. is_similar (get_pokemon_name v (name_frame e) (name_region bt)) t 0.7)
         (target_pokemons bt)"

text \<open>
  The loop itself, run over the finite list of iterations observed so far. The
  result holds the trace of every iteration, the state, and how the loop stands:
  still running, left because the stop event was set, or left by \<open>break\<close> on a target.
\<close>

datatype run_status = Running | Stopped | Alerted

fun run_loop ::
  "vision \<Rightarrow> bot \<Rightarrow> loop_state \<Rightarrow> tick_env list \<Rightarrow> event list list \<times> loop_state \<times> run_status"
  where
  "run_loop v bt s [] = ([], s, Running)"
| "run_loop v bt s (e # es) =
     (if stop_is_set e then ([], s, Stopped)
      else if pause_is_set e
      then (case run_loop v bt s es of (trs, s', st) \<Rightarrow> ([Sleep 0.2] # trs, s', st))
      else (case loop_body v bt e s of
              (s1, tr, broke) \<Rightarrow>
                if broke then ([tr], s1, Alerted)
                else (case run_loop v bt s1 es of (trs, s', st) \<Rightarrow> (tr # trs, s', st))))"

text \<open>The state \<open>run\<close> sets up before the loop, with \<open>t0\<close> the first clock reading.\<close>

definition initial_state :: "real \<Rightarrow> loop_state" where
  "initial_state t0 =
     \<lparr>encounter_count = 0, last_encounter_time = t0, next_check_time = t0 + 10, last_dir = 0\<rparr>"

definition run :: "vision \<Rightarrow> bot \<Rightarrow> real \<Rightarrow> tick_env list \<Rightarrow> event list \<times> loop_state \<times> run_status"
  where
  "run v bt t0 envs =
     (case run_loop v bt (initial_state t0) envs of
        (trs, s, st) \<Rightarrow>
          ([Log Bot_thread_started] @ concat trs
             @ (if st = Running then [] else [Log Bot_thread_stopping]), s, st))"

text \<open>
  An iteration that runs (neither stopped nor paused) and on which the detector
  reports no encounter.
\<close>

definition quiet_tick :: "bot \<Rightarrow> tick_env \<Rightarrow> bool" where
  "quiet_tick bt e \<longleftrightarrow>
     \<not> stop_is_set e \<and> \<not> pause_is_set e
     \<and> \<not> is_reddish_in_region (pokeball_frame e) (pokeball_region bt)
           lower_thresh_default upper_thresh_default"

text \<open>Observations on a trace: the arrow keys pressed, and the no-encounters alert.\<close>

definition movement_keys :: "event list \<Rightarrow> nat list" where
  "movement_keys tr =
     concat (map (\<lambda>ev. case ev of Key_down c \<Rightarrow> (if c = 123 \<or> c = 124 then [c] else [])
                              | _ \<Rightarrow> []) tr)"

definition no_encounters_alert :: "event list \<Rightarrow> bool" where
  "no_encounters_alert tr = (Log No_encounters_beep \<in> set tr)"

definition watchdog_checked :: "event list \<Rightarrow> bool" where
  "watchdog_checked tr = list_ex (\<lambda>ev. case ev of Watchdog_check now \<Rightarrow> True | _ \<Rightarrow> False) tr"

section \<open>Regions and the calibration tool (PBObotMac.py, calibrate_two_regions)\<close>

text \<open>
  Python's \<open>a, b = sorted([p, q])\<close> on a list of two integers: the smaller one first.
\<close>

definition sorted2 :: "int \<Rightarrow> int \<Rightarrow> int \<times> int" where
  "sorted2 p q = (case sort [p, q] of [a, b] \<Rightarrow> (a, b) | _ \<Rightarrow> (p, q))"

text \<open>
  The closure state of \<open>calibrate_two_regions\<close>: the press point
  (\<open>start_x\<close>, \<open>start_y\<close>), the two result slots, the index of the slot the next
  release fills, the messages put on the log queue, and whether the calibration
  window has been destroyed.
\<close>

record calib =
  start_x :: int
  start_y :: int
  result0 :: "region option"
  result1 :: "region option"
  region_index :: nat
  calib_logs :: "log_msg list"
  destroyed :: bool

definition calib_init :: calib where
  "calib_init = \<lparr>start_x = 0, start_y = 0, result0 = None, result1 = None,
     region_index = 0, calib_logs = [], destroyed = False\<rparr>"

definition on_button_press :: "int \<times> int \<Rightarrow> calib \<Rightarrow> calib" where
  "on_button_press ev c = c\<lparr>start_x := fst ev, start_y := snd ev\<rparr>"

text \<open>The rectangle that \<open>on_button_release\<close> computes from the press and release points.\<close>

definition release_rect :: "int \<times> int \<Rightarrow> int \<times> int \<Rightarrow> region" where
  "release_rect start ev =
     (let (end_x, end_y) = ev;
          (x1, x2) = sorted2 (fst start) end_x;
          (y1, y2) = sorted2 (snd start) end_y;
          w = x2 - x1;
          h = y2 - y1
      in (x1, y1, w, h))"

text \<open>
  \<open>on_button_release\<close>: \<open>result[idx]\<close> is written for \<open>idx\<close> 0 or 1 (the window is
  destroyed after the second release, so no later release is delivered); the
  message is logged with \<open>idx + 1\<close>; the window is destroyed when \<open>idx = 1\<close>, and
  the index advances otherwise.
\<close>

definition on_button_release :: "int \<times> int \<Rightarrow> calib \<Rightarrow> calib" where
  "on_button_release ev c =
     (let r = release_rect (start_x c, start_y c) ev;
          idx = region_index c;
          c1 = (if idx = 0 then c\<lparr>result0 := Some r\<rparr> else c\<lparr>result1 := Some r\<rparr>);
          c2 = c1\<lparr>calib_logs := calib_logs c1 @ [Calibrated_box (int idx + 1) r]\<rparr>
      in if idx = 1 then c2\<lparr>destroyed := True\<rparr> else c2\<lparr>region_index := idx + 1\<rparr>)"

text \<open>A press-drag-release gesture from \<open>p\<close> to \<open>q\<close>.\<close>

definition gesture :: "int \<times> int \<Rightarrow> int \<times> int \<Rightarrow> calib \<Rightarrow> calib" where
  "gesture p q c = on_button_release q (on_button_press p c)"

text \<open>
  \<open>calibrate_two_regions\<close> over the gestures the operator makes on the snapshot, each
  a press point and a release point. Without a snapshot it logs the failure and
  returns \<open>(None, None)\<close>. A gesture after the window has been destroyed is not
  delivered. The result is the pair of slots, with the messages logged.
\<close>

definition calibrate_two_regions ::
  "image option \<Rightarrow> ((int \<times> int) \<times> (int \<times> int)) list
     \<Rightarrow> (region option \<times> region option) \<times> log_msg list" where
  "calibrate_two_regions full_image_ref gestures =
     (case capture_window_mac full_image_ref None of
        None \<Rightarrow> ((None, None), [Could_not_capture_window])
      | Some full_img_pil \<Rightarrow>
          (let c = fold (\<lambda>(p, q) c. if destroyed c then c else gesture p q c) gestures calib_init
           in ((result0 c, result1 c), calib_logs c)))"

section \<open>Configuration (PBObotMac.py, load_config, save_config, BotGUI.__init__)\<close>

text \<open>
  The values \<open>json.load\<close> can return. A dictionary is the list of its items in
  insertion order, with distinct keys. Parsing and printing JSON text are the
  library's; they are parameters of the model. The file \<open>PBO_bot_config.json\<close> is
  \<open>None\<close> when it does not exist and its text otherwise.
\<close>

datatype json =
    JNull
  | JBool bool
  | JInt int
  | JFloat real
  | JStr string
  | JArr "json list"
  | JObj "(string \<times> json) list"

datatype py_error = ValueError | TypeError

record json_io =
  json_load :: "string \<Rightarrow> py_error + json"
  json_dumps :: "json \<Rightarrow> string"

definition load_config :: "json_io \<Rightarrow> string option \<Rightarrow> py_error + json" where
  "load_config io config_file =
     (case config_file of
        None \<Rightarrow> Inr (JObj [])
      | Some content \<Rightarrow> json_load io content)"

definition save_config :: "json_io \<Rightarrow> json \<Rightarrow> string option" where
  "save_config io data = Some (json_dumps io data)"

text \<open>
  \<open>key not in config_data\<close> and \<open>config_data[key] = value\<close> on whatever
  \<open>load_config\<close> returned: membership looks at the keys of a dictionary, at the
  elements of a list and at the substrings of a string, and raises \<open>TypeError\<close> on
  the other values; item assignment with a string key works on a dictionary only.
\<close>

definition is_substring :: "string \<Rightarrow> string \<Rightarrow> bool" where
  "is_substring k s = list_ex (\<lambda>i. take (length k) (drop i s) = k) [0..<Suc (length s)]"

fun py_contains :: "json \<Rightarrow> string \<Rightarrow> py_error + bool" where
  "py_contains (JObj d) k = Inr (map_of d k \<noteq> None)"
| "py_contains (JArr xs) k = Inr (List.member xs (JStr k))"
| "py_contains (JStr s) k = Inr (is_substring k s)"
| "py_contains JNull k = Inl TypeError"
| "py_contains (JBool b) k = Inl TypeError"
| "py_contains (JInt i) k = Inl TypeError"
| "py_contains (JFloat f) k = Inl TypeError"

definition dict_set :: "(string \<times> json) list \<Rightarrow> string \<Rightarrow> json \<Rightarrow> (string \<times> json) list" where
  "dict_set d k v =
     (if map_of d k = None then d @ [(k, v)]
      else map (\<lambda>(k', v'). if k' = k then (k', v) else (k', v')) d)"

definition py_setitem :: "json \<Rightarrow> string \<Rightarrow> json \<Rightarrow> py_error + json" where
  "py_setitem c k v = (case c of JObj d \<Rightarrow> Inr (JObj (dict_set d k v)) | _ \<Rightarrow> Inl TypeError)"

definition set_default :: "string \<Rightarrow> json \<Rightarrow> json \<Rightarrow> py_error + json" where
  "set_default k v config_data =
     (case py_contains config_data k of
        Inl err \<Rightarrow> Inl err
      | Inr present \<Rightarrow> if present then Inr config_data else py_setitem config_data k v)"

text \<open>Lines 397 to 404 of \<open>BotGUI.__init__\<close>: the four defaults, in this order.\<close>

definition fill_defaults :: "json \<Rightarrow> py_error + json" where
  "fill_defaults c0 =
     (case set_default ''pokeball_region'' (JArr [JInt 1380, JInt 330, JInt 60, JInt 20]) c0 of
        Inl err \<Rightarrow> Inl err
      | Inr c1 \<Rightarrow>
     (case set_default ''name_region'' (JArr [JInt 1224, JInt 339, JInt 145, JInt 20]) c1 of
        Inl err \<Rightarrow> Inl err
      | Inr c2 \<Rightarrow>
     (case set_default ''target_pokemons''
             (JArr [JStr ''Electivire'', JStr ''Xurkitree'', JStr ''Garchomp'']) c2 of
        Inl err \<Rightarrow> Inl err
      | Inr c3 \<Rightarrow> set_default ''preferred_move'' (JStr ''1'') c3)))"

text \<open>Lines 395 to 404: load the configuration, then fill in the defaults.\<close>

definition init_config_data :: "json_io \<Rightarrow> string option \<Rightarrow> py_error + json" where
  "init_config_data io config_file =
     (case load_config io config_file of
        Inl err \<Rightarrow> Inl err
      | Inr c0 \<Rightarrow> fill_defaults c0)"

section \<open>Starting the bot (PBObotMac.py, BotGUI.start_bot)\<close>

text \<open>
  \<open>int(s)\<close> on the text of an entry field: white space around the number is dropped,
  one sign may come first, then decimal digits, which single underscores may
  separate. \<open>None\<close> stands for \<open>ValueError\<close>.
\<close>

definition is_digit :: "char \<Rightarrow> bool" where
  "is_digit c = (let n = (of_char c :: nat) in 48 \<le> n \<and> n \<le> 57)"

fun parse_digits :: "string \<Rightarrow> nat \<Rightarrow> nat option" where
  "parse_digits [] acc = Some acc"
| "parse_digits (c # cs) acc =
     (if is_digit c then parse_digits cs (10 * acc + (of_char c - 48))
      else if c = CHR ''_''
      then (case cs of
              [] \<Rightarrow> None
            | d # ds \<Rightarrow> if is_digit d then parse_digits cs acc else None)
      else None)"

definition parse_unsigned :: "string \<Rightarrow> nat option" where
  "parse_unsigned s =
     (case s of [] \<Rightarrow> None | c # cs \<Rightarrow> if is_digit c then parse_digits s 0 else None)"

definition py_int :: "string \<Rightarrow> int option" where
  "py_int s =
     (case strip s of
        [] \<Rightarrow> None
      | c # cs \<Rightarrow>
          if c = CHR ''-'' then map_option (\<lambda>n. - int n) (parse_unsigned cs)
          else if c = CHR ''+'' then map_option int (parse_unsigned cs)
          else map_option int (parse_unsigned (c # cs)))"

text \<open>A tuple of four entry fields read with \<open>int\<close>, left to right.\<close>

definition read_region :: "string \<Rightarrow> string \<Rightarrow> string \<Rightarrow> string \<Rightarrow> region option" where
  "read_region fx fy fw fh =
     (case py_int fx of None \<Rightarrow> None | Some x \<Rightarrow>
     (case py_int fy of None \<Rightarrow> None | Some y \<Rightarrow>
     (case py_int fw of None \<Rightarrow> None | Some w \<Rightarrow>
     (case py_int fh of None \<Rightarrow> None | Some h \<Rightarrow> Some (x, y, w, h)))))"

text \<open>
  The fields of \<open>BotGUI\<close> that \<open>start_bot\<close> touches: the window found, the texts of
  the eight entry fields, the target list, the selected move, the configuration
  dictionary and file, the two events, the log queue, the thread object held, and
  the threads whose \<open>start()\<close> has been called.
\<close>

record gui =
  window_id :: "nat option"
  window_bounds :: "(real \<times> real \<times> real \<times> real) option"
  pb_x :: string
  pb_y :: string
  pb_w :: string
  pb_h :: string
  nm_x :: string
  nm_y :: string
  nm_w :: string
  nm_h :: string
  gui_target_pokemons :: "string list"
  move_choice_var :: string
  config_data :: "(string \<times> json) list"
  config_file :: "string option"
  stop_event :: bool
  pause_event :: bool
  log_queue :: "log_msg list"
  bot_thread :: "bot option"
  started_threads :: "bot list"

definition region_json :: "region \<Rightarrow> json" where
  "region_json r = (case r of (x, y, w, h) \<Rightarrow> JArr [JInt x, JInt y, JInt w, JInt h])"

text \<open>
  \<open>BotGUI._update_config_data\<close>: a \<open>ValueError\<close> in the \<open>try\<close> block leaves the
  regions written before it and skips the rest of the block.
\<close>

definition update_config_data :: "gui \<Rightarrow> gui" where
  "update_config_data g =
     (let c0 = config_data g;
          c1 = (case read_region (pb_x g) (pb_y g) (pb_w g) (pb_h g) of
                  None \<Rightarrow> c0
                | Some pb \<Rightarrow>
                    (let c = dict_set c0 ''pokeball_region'' (region_json pb)
                     in case read_region (nm_x g) (nm_y g) (nm_w g) (nm_h g) of
                          None \<Rightarrow> c
                        | Some nm \<Rightarrow> dict_set c ''name_region'' (region_json nm)));
          c2 = dict_set c1 ''target_pokemons'' (JArr (map JStr (gui_target_pokemons g)));
          c3 = dict_set c2 ''preferred_move'' (JStr (move_choice_var g))
      in g\<lparr>config_data := c3\<rparr>)"

text \<open>
  \<open>not self.window_id\<close> holds for \<open>None\<close> and for the number 0.
\<close>

definition window_missing :: "gui \<Rightarrow> bool" where
  "window_missing g = (window_id g = None \<or> window_id g = Some 0 \<or> window_bounds g = None)"

definition start_bot :: "json_io \<Rightarrow> gui \<Rightarrow> gui" where
  "start_bot io g =
     (if window_missing g
      then g\<lparr>log_queue := log_queue g @ [Must_find_window_first]\<rparr>
      else
        (let g1 = g\<lparr>stop_event := False, pause_event := False\<rparr>
         in case read_region (pb_x g1) (pb_y g1) (pb_w g1) (pb_h g1) of
              None \<Rightarrow> g1\<lparr>log_queue := log_queue g1 @ [Invalid_integer_in_region_fields]\<rparr>
            | Some pb_region \<Rightarrow>
           (case read_region (nm_x g1) (nm_y g1) (nm_w g1) (nm_h g1) of
              None \<Rightarrow> g1\<lparr>log_queue := log_queue g1 @ [Invalid_integer_in_region_fields]\<rparr>
            | Some nm_region \<Rightarrow>
                (let g2 = g1\<lparr>log_queue := log_queue g1 @ [Starting_bot]\<rparr>;
                     g3 = update_config_data g2;
                     g4 = g3\<lparr>config_file := save_config io (JObj (config_data g3))\<rparr>;
                     selected_move = move_choice_var g4;
                     thread = \<lparr>pokeball_region = pb_region, name_region = nm_region,
                                target_pokemons = gui_target_pokemons g4,
                                move_choice = selected_move\<rparr>
                 in g4\<lparr>bot_thread := Some thread,
                        started_threads := started_threads g4 @ [thread]\<rparr>))))"

section \<open>The Windows script (pbobotplus.py)\<close>

text \<open>
  \<open>capture_window(hwnd, region)\<close> copies the client area of the window and crops
  it; the picture of the client area is an input of the model. \<open>get_pixel_color\<close>
  reads the top-left pixel of the 20 by 20 region at \<open>(x, y)\<close>, and
  \<open>is_predefined_coord_reddish\<close> tests that one pixel with strict bounds.
\<close>

definition capture_window :: "image \<Rightarrow> region option \<Rightarrow> image" where
  "capture_window im region =
     (case region of None \<Rightarrow> im | Some (x, y, w, h) \<Rightarrow> crop im (x, y, x + w, y + h))"

definition get_pixel_color :: "image \<Rightarrow> int \<Rightarrow> int \<Rightarrow> pixel" where
  "get_pixel_color im x y = pixel_at (capture_window im (Some (x, y, 20, 20))) 0 0"

definition is_predefined_coord_reddish :: "image \<Rightarrow> int \<Rightarrow> int \<Rightarrow> bool" where
  "is_predefined_coord_reddish im x y =
     (case get_pixel_color im x y of (r, g, b) \<Rightarrow> uint r > 150 \<and> uint g < 100 \<and> uint b < 100)"

definition REDDISH_CHECK_COORD :: "int \<times> int" where
  "REDDISH_CHECK_COORD = (1390, 340)"

definition POKEMON_NAME_REGION :: region where
  "POKEMON_NAME_REGION = (1224, 339, 145, 20)"

definition plus_target_pokemons :: "string list" where
  "plus_target_pokemons = [''Electivire'', ''Dustox'']"

text \<open>
  \<open>press_key(hwnd, key_code, hold_time)\<close> posts the key-down message, sleeps and
  posts the key-up message. \<open>move_in_bushes\<close> reads and writes the global
  \<open>last_direction\<close>, which the module sets to \<open>"right"\<close> before \<open>main\<close> runs.
\<close>

definition press_key :: "nat \<Rightarrow> real \<Rightarrow> event list" where
  "press_key key_code hold_time = [Key_down key_code, Sleep hold_time, Key_up key_code]"

definition plus_move_in_bushes :: "string \<Rightarrow> string \<times> event list" where
  "plus_move_in_bushes last_direction =
     (if last_direction = ''right'' then (''left'', press_key 0x25 0.25)
      else (''right'', press_key 0x27 0.25))"

definition plus_get_pokemon_name :: "vision \<Rightarrow> image \<Rightarrow> string" where
  "plus_get_pokemon_name v client =
     (let im = capture_window client (Some POKEMON_NAME_REGION);
          gray = cvtColor_RGB2GRAY v im;
          binary = threshold_binary gray 150 255;
          text = image_to_string v binary
      in strip text)"

definition plus_defeat_wild_pokemon :: "event list" where
  "plus_defeat_wild_pokemon = press_key 0x33 0.1"

text \<open>
  The loop of \<open>main\<close> over the iterations observed so far; an iteration reads the
  client picture for the pixel test and the one for the name. The result holds the
  key events of every iteration, the value of \<open>last_direction\<close>, and whether the
  loop is still running or was left by \<open>break\<close>.
\<close>

record plus_env =
  pixel_client :: image
  name_client :: image

fun plus_main_loop ::
  "vision \<Rightarrow> string \<Rightarrow> plus_env list \<Rightarrow> event list list \<times> string \<times> run_status" where
  "plus_main_loop v last_direction [] = ([], last_direction, Running)"
| "plus_main_loop v last_direction (e # es) =
     (case plus_move_in_bushes last_direction of
        (d, moved) \<Rightarrow>
          if is_predefined_coord_reddish (pixel_client e) (fst REDDISH_CHECK_COORD)
               (snd REDDISH_CHECK_COORD)
          then
            (let pokemon_name = plus_get_pokemon_name v (name_client e)
             in if list_ex (\<lambda>target. is_similar pokemon_name target 0.7) plus_target_pokemons
                then ([moved], d, Alerted)
                else (case plus_main_loop v d es of
                        (trs, d', st) \<Rightarrow>
                          ((moved @ plus_defeat_wild_pokemon @ [Sleep 0.25]) # trs, d', st)))
          else (case plus_main_loop v d es of (trs, d', st) \<Rightarrow> (moved # trs, d', st)))"

definition plus_movement_keys :: "event list \<Rightarrow> nat list" where
  "plus_movement_keys tr =
     concat (map (\<lambda>ev. case ev of Key_down c \<Rightarrow> (if c = 0x25 \<or> c = 0x27 then [c] else [])
                              | _ \<Rightarrow> []) tr)"

section \<open>Properties of the detector and of the name reader\<close>

lemma inRange_elem_pos:
  "0 < inRange_elem (l0, l1, l2) (u0, u1, u2) (c0, c1, c2) \<longleftrightarrow>
     l0 \<le> uint c0 \<and> uint c0 \<le> u0 \<and> l1 \<le> uint c1 \<and> uint c1 \<le> u1 \<and> l2 \<le> uint c2 \<and> uint c2 \<le> u2"
  by (simp add: inRange_elem_def)

lemma mask_row:
  "list_ex (\<lambda>m. 0 < m) (map (inRange_elem (lb, lg, lr) (ub, ug, ur)) (map (\<lambda>(r, g, b). (b, g, r)) row))
   \<longleftrightarrow> (\<exists>(r, g, b) \<in> set row.
         lr \<le> uint r \<and> uint r \<le> ur \<and> lg \<le> uint g \<and> uint g \<le> ug \<and> lb \<le> uint b \<and> uint b \<le> ub)"
  by (induction row) (auto simp: inRange_elem_pos)

lemma mask_any:
  "list_ex (list_ex (\<lambda>m. 0 < m)) (inRange (cvtColor_RGB2BGR img) (lb, lg, lr) (ub, ug, ur))
   \<longleftrightarrow> (\<exists>(r, g, b) \<in> set (concat img).
         lr \<le> uint r \<and> uint r \<le> ur \<and> lg \<le> uint g \<and> uint g \<le> ug \<and> lb \<le> uint b \<and> uint b \<le> ub)"
proof -
  have "list_ex (list_ex (\<lambda>m. 0 < m)) (inRange (cvtColor_RGB2BGR img) (lb, lg, lr) (ub, ug, ur))
    \<longleftrightarrow> (\<exists>row \<in> set img. list_ex (\<lambda>m. 0 < m)
          (map (inRange_elem (lb, lg, lr) (ub, ug, ur)) (map (\<lambda>(r, g, b). (b, g, r)) row)))"
    by (induction img) (simp_all add: inRange_def cvtColor_RGB2BGR_def del: map_map)
  also have "\<dots> \<longleftrightarrow> (\<exists>row \<in> set img. \<exists>(r, g, b) \<in> set row.
         lr \<le> uint r \<and> uint r \<le> ur \<and> lg \<le> uint g \<and> uint g \<le> ug \<and> lb \<le> uint b \<and> uint b \<le> ub)"
    by (simp only: mask_row)
  also have "\<dots> \<longleftrightarrow> (\<exists>(r, g, b) \<in> set (concat img).
         lr \<le> uint r \<and> uint r \<le> ur \<and> lg \<le> uint g \<and> uint g \<le> ug \<and> lb \<le> uint b \<and> uint b \<le> ub)"
    by auto
  finally show ?thesis .
qed


lemma capture_None_iff: "capture_window_mac f r = None \<longleftrightarrow> f = None"
  by (simp add: capture_window_mac_def split: option.splits prod.splits)

lemma reddish_default_iff:
  assumes "capture_window_mac full_image_ref (Some region) = Some img"
  shows "is_reddish_in_region full_image_ref region lower_thresh_default upper_thresh_default
     \<longleftrightarrow> (\<exists>(r, g, b) \<in> set (concat img).
           150 \<le> uint r \<and> uint r \<le> 255 \<and> 0 \<le> uint g \<and> uint g \<le> 100 \<and> 0 \<le> uint b \<and> uint b \<le> 100)"
  using assms
  by (simp add: is_reddish_in_region_def lower_thresh_default_def upper_thresh_default_def
      mask_any)

lemma mac_detector_default_bounds:
  "capture_window_mac full_image_ref (Some region) = Some img \<Longrightarrow>
     (is_reddish_in_region full_image_ref region lower_thresh_default upper_thresh_default
       \<longleftrightarrow> (\<exists>(r, g, b) \<in> set (concat img).
             150 \<le> uint r \<and> uint r \<le> 255 \<and> 0 \<le> uint g \<and> uint g \<le> 100
             \<and> 0 \<le> uint b \<and> uint b \<le> 100))
     \<and> ((150, 0, 0) \<in> set (concat img) \<longrightarrow>
           is_reddish_in_region full_image_ref region lower_thresh_default upper_thresh_default)
     \<and> ((\<forall>(r, g, b) \<in> set (concat img).
             uint r < 150 \<or> 255 < uint r \<or> uint g < 0 \<or> 100 < uint g \<or> uint b < 0 \<or> 100 < uint b)
          \<longrightarrow> \<not> is_reddish_in_region full_image_ref region lower_thresh_default
                 upper_thresh_default)"
proof (intro conjI impI)
  assume c: "capture_window_mac full_image_ref (Some region) = Some img"
  show "is_reddish_in_region full_image_ref region lower_thresh_default upper_thresh_default
       \<longleftrightarrow> (\<exists>(r, g, b) \<in> set (concat img).
             150 \<le> uint r \<and> uint r \<le> 255 \<and> 0 \<le> uint g \<and> uint g \<le> 100
             \<and> 0 \<le> uint b \<and> uint b \<le> 100)"
    by (rule reddish_default_iff [OF c])
next
  assume c: "capture_window_mac full_image_ref (Some region) = Some img"
    and p: "(150, 0, 0) \<in> set (concat img)"
  have "\<exists>(r, g, b) \<in> set (concat img).
             150 \<le> uint r \<and> uint r \<le> 255 \<and> 0 \<le> uint g \<and> uint g \<le> 100
             \<and> 0 \<le> uint b \<and> uint b \<le> 100"
    using p by (intro bexI [of _ "(150, 0, 0)"]) simp_all
  then show "is_reddish_in_region full_image_ref region lower_thresh_default upper_thresh_default"
    using reddish_default_iff [OF c] by blast
next
  assume c: "capture_window_mac full_image_ref (Some region) = Some img"
    and out: "\<forall>(r, g, b) \<in> set (concat img).
             uint r < 150 \<or> 255 < uint r \<or> uint g < 0 \<or> 100 < uint g \<or> uint b < 0 \<or> 100 < uint b"
  have "\<not> (\<exists>(r, g, b) \<in> set (concat img).
             150 \<le> uint r \<and> uint r \<le> 255 \<and> 0 \<le> uint g \<and> uint g \<le> 100
             \<and> 0 \<le> uint b \<and> uint b \<le> 100)"
    using out by fastforce
  then show "\<not> is_reddish_in_region full_image_ref region lower_thresh_default
                 upper_thresh_default"
    using reddish_default_iff [OF c] by blast
qed

lemma get_pixel_color_eq: "get_pixel_color im x y = pixel_at im x y"
proof -
  have "capture_window im (Some (x, y, 20, 20)) ! 0 ! 0 = pixel_at im x y"
    by (simp add: capture_window_def crop_def upt_conv_Cons numeral_eq_Suc del: upt_Suc)
  moreover have "length (capture_window im (Some (x, y, 20, 20))) = 20"
    "length (capture_window im (Some (x, y, 20, 20)) ! 0) = 20"
    by (simp_all add: capture_window_def crop_def)
  ultimately show ?thesis
    by (simp add: get_pixel_color_def pixel_at_def [of "capture_window im (Some (x, y, 20, 20))"])
qed

lemma plus_detector_one_pixel:
  "is_predefined_coord_reddish im x y \<longleftrightarrow>
     (case pixel_at im x y of (r, g, b) \<Rightarrow> 150 < uint r \<and> uint g < 100 \<and> uint b < 100)"
  by (simp add: is_predefined_coord_reddish_def get_pixel_color_eq)

text \<open>
  Claim C1, as the code has it. The detector of the macOS program: whenever the
  capture of the indicator region gives an image, the detector with its default
  bounds answers true exactly when some pixel of that image has its red channel in
  150..255 and its green and blue channels in 0..100, the ends included; in
  particular an image holding a pixel \<open>(150, 0, 0)\<close> gives true, and an image all of
  whose pixels are outside the bounds on some channel gives false. The detector of
  the Windows script: it captures the 20 by 20 region at the check coordinate and
  answers true exactly when the top-left pixel of that region, which is the pixel of
  the window at the check coordinate, has red above 150, green below 100 and blue
  below 100, the bounds excluded; the other pixels of the region play no part.
\<close>

theorem detector_true_iff_some_pixel_in_bounds:
  "(capture_window_mac full_image_ref (Some region) = Some img \<longrightarrow>
     (is_reddish_in_region full_image_ref region lower_thresh_default upper_thresh_default
       \<longleftrightarrow> (\<exists>(r, g, b) \<in> set (concat img).
             150 \<le> uint r \<and> uint r \<le> 255 \<and> 0 \<le> uint g \<and> uint g \<le> 100
             \<and> 0 \<le> uint b \<and> uint b \<le> 100))
     \<and> ((150, 0, 0) \<in> set (concat img) \<longrightarrow>
           is_reddish_in_region full_image_ref region lower_thresh_default upper_thresh_default)
     \<and> ((\<forall>(r, g, b) \<in> set (concat img).
             uint r < 150 \<or> 255 < uint r \<or> uint g < 0 \<or> 100 < uint g \<or> uint b < 0 \<or> 100 < uint b)
          \<longrightarrow> \<not> is_reddish_in_region full_image_ref region lower_thresh_default
                 upper_thresh_default))
   \<and> (is_predefined_coord_reddish im x y \<longleftrightarrow>
        (case pixel_at (capture_window im (Some (x, y, 20, 20))) 0 0 of
           (r, g, b) \<Rightarrow> 150 < uint r \<and> uint g < 100 \<and> uint b < 100))
   \<and> pixel_at (capture_window im (Some (x, y, 20, 20))) 0 0 = pixel_at im x y"
proof (intro conjI)
  show "capture_window_mac full_image_ref (Some region) = Some img \<longrightarrow>
     (is_reddish_in_region full_image_ref region lower_thresh_default upper_thresh_default
       \<longleftrightarrow> (\<exists>(r, g, b) \<in> set (concat img).
             150 \<le> uint r \<and> uint r \<le> 255 \<and> 0 \<le> uint g \<and> uint g \<le> 100
             \<and> 0 \<le> uint b \<and> uint b \<le> 100))
     \<and> ((150, 0, 0) \<in> set (concat img) \<longrightarrow>
           is_reddish_in_region full_image_ref region lower_thresh_default upper_thresh_default)
     \<and> ((\<forall>(r, g, b) \<in> set (concat img).
             uint r < 150 \<or> 255 < uint r \<or> uint g < 0 \<or> 100 < uint g \<or> uint b < 0 \<or> 100 < uint b)
          \<longrightarrow> \<not> is_reddish_in_region full_image_ref region lower_thresh_default
                 upper_thresh_default)"
    using mac_detector_default_bounds [of full_image_ref region img] by blast
next
  have same: "pixel_at (capture_window im (Some (x, y, 20, 20))) 0 0 = pixel_at im x y"
    using get_pixel_color_eq [of im x y] by (simp only: get_pixel_color_def)
  show "pixel_at (capture_window im (Some (x, y, 20, 20))) 0 0 = pixel_at im x y"
    by (rule same)
  show "is_predefined_coord_reddish im x y \<longleftrightarrow>
        (case pixel_at (capture_window im (Some (x, y, 20, 20))) 0 0 of
           (r, g, b) \<Rightarrow> 150 < uint r \<and> uint g < 100 \<and> uint b < 100)"
    by (simp only: same plus_detector_one_pixel)
qed

theorem detector_true_iff_some_pixel_in_bounds_witness:
  "capture_window_mac (Some [[(1, 2, 3), (150, 0, 0)]]) (Some (1, 0, 1, 1)) = Some [[(150, 0, 0)]]
   \<and> (150, 0, 0) \<in> set (concat [[(150, 0, 0) :: pixel]])
   \<and> is_reddish_in_region (Some [[(1, 2, 3), (150, 0, 0)]]) (1, 0, 1, 1)
        lower_thresh_default upper_thresh_default
   \<and> is_predefined_coord_reddish [[(1, 2, 3), (151, 99, 99)]] 1 0"
proof -
  have c: "capture_window_mac (Some [[(1, 2, 3), (150, 0, 0)]]) (Some (1, 0, 1, 1))
             = Some [[(150, 0, 0)]]"
    by (simp add: capture_window_mac_def crop_def pixel_at_def)
  have p: "(150, 0, 0) \<in> set (concat [[(150, 0, 0) :: pixel]])"
    by simp
  note inst = detector_true_iff_some_pixel_in_bounds
    [of "Some [[(1, 2, 3), (150, 0, 0)]]" "(1, 0, 1, 1)" "[[(150, 0, 0)]]"
        "[[(1, 2, 3), (151, 99, 99)]]" 1 0]
  from inst c p have mac: "is_reddish_in_region (Some [[(1, 2, 3), (150, 0, 0)]]) (1, 0, 1, 1)
        lower_thresh_default upper_thresh_default"
    by blast
  have px: "pixel_at [[(1, 2, 3), (151, 99, 99)]] 1 0 = (151, 99, 99)"
    by (simp add: pixel_at_def)
  from inst have "is_predefined_coord_reddish [[(1, 2, 3), (151, 99, 99)]] 1 0 \<longleftrightarrow>
      (case pixel_at [[(1, 2, 3), (151, 99, 99)]] 1 0 of
         (r, g, b) \<Rightarrow> 150 < uint r \<and> uint g < 100 \<and> uint b < 100)"
    by (elim conjE) (simp only:)
  then have win: "is_predefined_coord_reddish [[(1, 2, 3), (151, 99, 99)]] 1 0"
    by (simp add: px)
  from c p mac win show ?thesis by (intro conjI)
qed

text \<open>
  Claim C1 as stated fails on the detector of the Windows script. The region captured
  at the check coordinate holds the pixel \<open>(150, 0, 0)\<close>, which is within the inclusive
  bounds, and the detector answers false because its bounds are strict; and a region
  whose second pixel \<open>(200, 0, 0)\<close> is within the bounds gives false because only the
  first pixel is tested.
\<close>

theorem plus_detector_rejects_pixels_in_bounds:
  "(150, 0, 0) \<in> set (concat (capture_window [[(150, 0, 0)]] (Some (0, 0, 20, 20))))
   \<and> \<not> is_predefined_coord_reddish [[(150, 0, 0)]] 0 0
   \<and> (200, 0, 0) \<in> set (concat (capture_window [[(0, 0, 0), (200, 0, 0)]] (Some (0, 0, 20, 20))))
   \<and> \<not> is_predefined_coord_reddish [[(0, 0, 0), (200, 0, 0)]] 0 0"
proof -
  have row: "\<And>im. capture_window im (Some (0, 0, 20, 20)) \<noteq> []
      \<and> pixel_at im 0 0 \<in> set (hd (capture_window im (Some (0, 0, 20, 20))))
      \<and> pixel_at im 1 0 \<in> set (hd (capture_window im (Some (0, 0, 20, 20))))"
    by (simp add: capture_window_def crop_def upt_conv_Cons numeral_eq_Suc del: upt_Suc)
  have mem: "\<And>im p. capture_window im (Some (0, 0, 20, 20)) \<noteq> [] \<Longrightarrow>
      p \<in> set (hd (capture_window im (Some (0, 0, 20, 20)))) \<Longrightarrow>
      p \<in> set (concat (capture_window im (Some (0, 0, 20, 20))))"
    by (metis concat.simps(2) list.collapse Un_iff set_append)
  have 1: "(150, 0, 0) \<in> set (concat (capture_window [[(150, 0, 0)]] (Some (0, 0, 20, 20))))"
    using row [of "[[(150, 0, 0)]]"] mem [of "[[(150, 0, 0)]]" "(150, 0, 0)"]
    by (simp add: pixel_at_def)
  have 2: "(200, 0, 0)
      \<in> set (concat (capture_window [[(0, 0, 0), (200, 0, 0)]] (Some (0, 0, 20, 20))))"
    using row [of "[[(0, 0, 0), (200, 0, 0)]]"] mem [of "[[(0, 0, 0), (200, 0, 0)]]" "(200, 0, 0)"]
    by (simp add: pixel_at_def)
  have 3: "\<not> is_predefined_coord_reddish [[(150, 0, 0)]] 0 0"
    by (simp add: plus_detector_one_pixel pixel_at_def)
  have 4: "\<not> is_predefined_coord_reddish [[(0, 0, 0), (200, 0, 0)]] 0 0"
    by (simp add: plus_detector_one_pixel pixel_at_def)
  from 1 3 2 4 show ?thesis by (intro conjI)
qed

text \<open>
  Claim C8. When the capture of the indicator region fails (the window system gives no
  image, so \<open>capture_window_mac\<close> returns \<open>None\<close>), the detector answers false: the
  function returns a value on this path, whatever the thresholds.
\<close>

theorem detector_inactive_when_capture_fails:
  "(capture_window_mac full_image_ref (Some region) = None \<longrightarrow>
      is_reddish_in_region full_image_ref region lower_thresh upper_thresh = False)
   \<and> capture_window_mac None (Some region) = None
   \<and> is_reddish_in_region None region lower_thresh upper_thresh = False"
  by (simp add: is_reddish_in_region_def capture_window_mac_def)

theorem detector_inactive_when_capture_fails_witness:
  "capture_window_mac None (Some (1380, 330, 60, 20)) = None
   \<and> is_reddish_in_region None (1380, 330, 60, 20) lower_thresh_default upper_thresh_default
       = False"
  using detector_inactive_when_capture_fails
    [of None "(1380, 330, 60, 20)" lower_thresh_default upper_thresh_default]
  by simp

lemma lstrip_hd: "lstrip s \<noteq> [] \<Longrightarrow> \<not> is_space (hd (lstrip s))"
  unfolding lstrip_def by (rule hd_dropWhile)

lemma rstrip_last: "rstrip s \<noteq> [] \<Longrightarrow> \<not> is_space (last (rstrip s))"
  unfolding rstrip_def by (simp add: last_rev hd_dropWhile)

lemma rstrip_prefix: "\<exists>zs. s = rstrip s @ zs"
proof -
  have "rev s = takeWhile is_space (rev s) @ dropWhile is_space (rev s)"
    by simp
  then have "s = rev (dropWhile is_space (rev s)) @ rev (takeWhile is_space (rev s))"
    by (metis rev_append rev_rev_ident)
  then show ?thesis unfolding rstrip_def by blast
qed

lemma rstrip_hd: "rstrip s \<noteq> [] \<Longrightarrow> hd (rstrip s) = hd s"
  using rstrip_prefix [of s] by (metis hd_append2)

lemma strip_ends:
  "strip s \<noteq> [] \<Longrightarrow> \<not> is_space (hd (strip s)) \<and> \<not> is_space (last (strip s))"
proof -
  assume ne: "strip s \<noteq> []"
  then have l: "lstrip s \<noteq> []"
    by (auto simp: strip_def rstrip_def)
  have "hd (strip s) = hd (lstrip s)"
    using ne unfolding strip_def by (rule rstrip_hd)
  with lstrip_hd [OF l] rstrip_last [of "lstrip s"] ne show ?thesis
    by (simp add: strip_def)
qed

text \<open>
  Claim C9. The name that \<open>get_pokemon_name\<close> returns neither starts nor ends with a
  whitespace character, and it is the empty string whenever the capture of the name
  region fails.
\<close>

theorem name_is_stripped_and_empty_on_failure:
  "(get_pokemon_name v full_image_ref region \<noteq> [] \<longrightarrow>
      \<not> is_space (hd (get_pokemon_name v full_image_ref region))
      \<and> \<not> is_space (last (get_pokemon_name v full_image_ref region)))
   \<and> (capture_window_mac full_image_ref (Some region) = None \<longrightarrow>
        get_pokemon_name v full_image_ref region = [])"
  by (auto simp: get_pokemon_name_def Let_def strip_ends split: option.splits)


theorem name_is_stripped_and_empty_on_failure_witness:
  "get_pokemon_name \<lparr>cvtColor_RGB2GRAY = (\<lambda>img. []), image_to_string = (\<lambda>img. '' Garchomp  '')\<rparr>
       (Some [[(0, 0, 0)]]) (0, 0, 1, 1) = ''Garchomp''
   \<and> \<not> is_space (hd ''Garchomp'') \<and> \<not> is_space (last ''Garchomp'')
   \<and> capture_window_mac None (Some (0, 0, 1, 1)) = None
   \<and> get_pokemon_name \<lparr>cvtColor_RGB2GRAY = (\<lambda>img. []), image_to_string = (\<lambda>img. '' Garchomp  '')\<rparr>
       None (0, 0, 1, 1) = []"
proof -
  let ?v = "\<lparr>cvtColor_RGB2GRAY = (\<lambda>img. []), image_to_string = (\<lambda>img. '' Garchomp  '')\<rparr>"
  have n: "get_pokemon_name ?v (Some [[(0, 0, 0)]]) (0, 0, 1, 1) = ''Garchomp''"
    by (simp add: get_pokemon_name_def capture_window_mac_def strip_def lstrip_def rstrip_def
        is_space_def)
  have c: "capture_window_mac None (Some (0, 0, 1, 1)) = None"
    by (simp add: capture_window_mac_def)
  from name_is_stripped_and_empty_on_failure [of ?v "Some [[(0, 0, 0)]]" "(0, 0, 1, 1)"]
    name_is_stripped_and_empty_on_failure [of ?v None "(0, 0, 1, 1)"] n c
  show ?thesis by simp
qed

section \<open>Properties of the name matcher\<close>

lemma find_longest_match_empty_a: "find_longest_match [] b 0 0 blo bhi = (0, blo, 0)"
  by (simp add: find_longest_match_def outer_loop.simps [of _ _ 0] extend_back.simps [of _ _ 0]
      extend_forward.simps [of _ _ 0])

lemma get_matching_blocks_empty_a: "get_matching_blocks [] b = [(0, length b, 0)]"
  by (simp add: get_matching_blocks_def find_longest_match_empty_a)

lemma ratio_empty_a: "ratio [] b = (if b = [] then 1 else 0)"
  by (simp add: ratio_def get_matching_blocks_empty_a calculate_ratio_def)

lemma is_similar_empty_name: "is_similar [] t (0.7) \<longleftrightarrow> t = []"
  by (simp add: is_similar_def lower_def ratio_empty_a)

text \<open>
  Claim C5, as the code has it. With the empty string as recognized text, the matcher
  declares a match exactly when the target list holds the empty string as a
  candidate (the ratio of two empty strings is 1). For a target list whose
  candidates are all non-empty there is no match: the ratio of the empty string to
  every candidate is 0, below the threshold 0.7.
\<close>

theorem empty_text_matches_only_empty_candidate:
  "(list_ex (\<lambda>t. is_similar [] t 0.7) targets \<longleftrightarrow> [] \<in> set targets)
   \<and> ((\<forall>t \<in> set targets. t \<noteq> []) \<longrightarrow>
        \<not> list_ex (\<lambda>t. is_similar [] t 0.7) targets
        \<and> (\<forall>t \<in> set targets. ratio (lower []) (lower t) = 0 \<and> ratio (lower []) (lower t) < 0.7))"
  by (auto simp: list_ex_iff is_similar_empty_name lower_def ratio_empty_a)

theorem empty_text_matches_only_empty_candidate_witness:
  "list_all (\<lambda>t. t \<noteq> []) [''Electivire'', ''Xurkitree'', ''Garchomp'']
   \<and> \<not> list_ex (\<lambda>t. is_similar [] t 0.7) [''Electivire'', ''Xurkitree'', ''Garchomp'']"
  using empty_text_matches_only_empty_candidate [of "[''Electivire'', ''Xurkitree'', ''Garchomp'']"]
  by simp

text \<open>
  Claim C5 as stated fails for the non-empty target list whose one candidate is the
  empty string: the empty recognized text matches it.
\<close>

theorem empty_text_matches_empty_candidate:
  "[[]] \<noteq> ([] :: string list) \<and> list_ex (\<lambda>t. is_similar [] t 0.7) [[]]"
  by (simp add: is_similar_empty_name)

section \<open>Properties of the movement\<close>

lemma movement_keys_append [simp]:
  "movement_keys (xs @ ys) = movement_keys xs @ movement_keys ys"
  by (simp add: movement_keys_def)

lemma movement_keys_Nil [simp]: "movement_keys [] = []"
  by (simp add: movement_keys_def)

lemma movement_keys_Cons:
  "movement_keys (ev # tr) =
     (case ev of Key_down c \<Rightarrow> (if c = 123 \<or> c = 124 then [c] else []) | _ \<Rightarrow> [])
       @ movement_keys tr"
  by (simp add: movement_keys_def)

lemma movement_keys_move:
  "movement_keys (snd (move_in_bushes d)) = [if d = 0 then 124 else 123]"
  by (simp add: move_in_bushes_def press_key_mac_def MAC_KEYCODES_def movement_keys_Cons)

lemma fst_move: "fst (move_in_bushes d) = (if d = 0 then 1 else 0)"
  by (simp add: move_in_bushes_def)

lemma movement_keys_press_other:
  "k \<noteq> ''left_arrow'' \<Longrightarrow> k \<noteq> ''right_arrow'' \<Longrightarrow> movement_keys (press_key_mac k h) = []"
  by (simp add: press_key_mac_def MAC_KEYCODES_def movement_keys_Cons split: option.splits)

lemma movement_keys_defeat: "movement_keys (defeat_wild_pokemon bt) = []"
proof -
  have "(case map_of move_map (move_choice bt) of None \<Rightarrow> ''1'' | Some k \<Rightarrow> k)
          \<in> {''1'', ''2'', ''3'', ''4'', ''r''}"
    by (auto simp: move_map_def split: option.splits if_splits)
  then show ?thesis
    unfolding defeat_wild_pokemon_def Let_def
    by (auto intro!: movement_keys_press_other)
qed

lemma movement_keys_watchdog: "movement_keys (snd (watchdog now s)) = []"
  by (simp add: watchdog_def beep_def movement_keys_Cons)

lemma loop_body_moves:
  "loop_body v bt e s = (s', tr, broke) \<Longrightarrow>
     movement_keys tr = [if last_dir s = 0 then 124 else 123]
     \<and> last_dir s' = (if last_dir s = 0 then 1 else 0)"
  using movement_keys_move [of "last_dir s"] fst_move [of "last_dir s"]
    movement_keys_watchdog [of "clock_at_watchdog e"]
  by (auto simp: loop_body_def Let_def beep_def movement_keys_Cons movement_keys_defeat
      watchdog_def split: prod.splits if_splits)


lemma fst_run_loop_paused:
  "\<not> stop_is_set e \<Longrightarrow> pause_is_set e \<Longrightarrow>
   fst (run_loop v bt s (e # es)) = [Sleep 0.2] # fst (run_loop v bt s es)"
  by (cases "run_loop v bt s es") simp

lemma fst_run_loop_active:
  "\<not> stop_is_set e \<Longrightarrow> \<not> pause_is_set e \<Longrightarrow> loop_body v bt e s = (s1, tr, False) \<Longrightarrow>
   fst (run_loop v bt s (e # es)) = tr # fst (run_loop v bt s1 es)"
  by (cases "run_loop v bt s1 es") simp

lemma run_loop_moves:
  "\<exists>n. movement_keys (concat (fst (run_loop v bt s envs)))
        = map (\<lambda>k. if even k = (last_dir s = 0) then 124 else 123) [0..<n]"
proof (induction envs arbitrary: s)
  case Nil
  show ?case by (intro exI [of _ 0]) simp
next
  case (Cons e es)
  show ?case
  proof (cases "stop_is_set e")
    case True
    then show ?thesis by (intro exI [of _ 0]) simp
  next
    case ns: False
    show ?thesis
    proof (cases "pause_is_set e")
      case True
      from Cons.IH [of s] obtain n where
        "movement_keys (concat (fst (run_loop v bt s es)))
           = map (\<lambda>k. if even k = (last_dir s = 0) then 124 else 123) [0..<n]" ..
      then show ?thesis using fst_run_loop_paused [OF ns True, of v bt s es]
        by (intro exI [of _ n]) (simp add: movement_keys_Cons)
    next
      case np: False
      obtain s1 tr broke where b: "loop_body v bt e s = (s1, tr, broke)"
        by (metis prod_cases3)
      note m = loop_body_moves [OF b]
      show ?thesis
      proof (cases broke)
        case True
        then show ?thesis using ns np b m
          by (intro exI [of _ 1]) simp
      next
        case False
        from Cons.IH [of s1] obtain n where n:
          "movement_keys (concat (fst (run_loop v bt s1 es)))
             = map (\<lambda>k. if even k = (last_dir s1 = 0) then 124 else 123) [0..<n]" ..
        have "movement_keys (concat (fst (run_loop v bt s (e # es))))
            = movement_keys tr @ movement_keys (concat (fst (run_loop v bt s1 es)))"
          using fst_run_loop_active [OF ns np, of v bt s s1 tr es] b False by simp
        also have "\<dots> = map (\<lambda>k. if even k = (last_dir s = 0) then 124 else 123) [0..<Suc n]"
          using m n by (simp only: map_upt_Suc) auto
        finally show ?thesis by blast
      qed
    qed
  qed
qed

lemma run_loop_tick_moves:
  "\<forall>e \<in> set envs. \<not> stop_is_set e \<and> \<not> pause_is_set e \<Longrightarrow>
   k < length (fst (run_loop v bt s envs)) \<Longrightarrow>
   movement_keys (fst (run_loop v bt s envs) ! k)
     = [if even k = (last_dir s = 0) then 124 else 123]"
proof (induction envs arbitrary: s k)
  case Nil
  then show ?case by simp
next
  case (Cons e es)
  obtain s1 tr broke where b: "loop_body v bt e s = (s1, tr, broke)"
    by (metis prod_cases3)
  note m = loop_body_moves [OF b]
  have act: "\<not> stop_is_set e" "\<not> pause_is_set e" and rest:
    "\<forall>e \<in> set es. \<not> stop_is_set e \<and> \<not> pause_is_set e"
    using Cons.prems(1) by simp_all
  show ?case
  proof (cases broke)
    case True
    then show ?thesis using act b m Cons.prems(2) by simp
  next
    case False
    have r: "fst (run_loop v bt s (e # es)) = tr # fst (run_loop v bt s1 es)"
      using fst_run_loop_active [OF act, of v bt s s1 tr es] b False by simp
    show ?thesis
    proof (cases k)
      case 0
      then show ?thesis using r m by simp
    next
      case (Suc k')
      then have "k' < length (fst (run_loop v bt s1 es))"
        using Cons.prems(2) r by simp
      from Cons.IH [OF rest this] show ?thesis
        using r Suc m by auto
    qed
  qed
qed

lemma plus_movement_keys_append [simp]:
  "plus_movement_keys (xs @ ys) = plus_movement_keys xs @ plus_movement_keys ys"
  by (simp add: plus_movement_keys_def)

lemma plus_move_keys:
  "plus_movement_keys (snd (plus_move_in_bushes d)) = [if d = ''right'' then 0x25 else 0x27]"
  "fst (plus_move_in_bushes d) = (if d = ''right'' then ''left'' else ''right'')"
  by (simp_all add: plus_move_in_bushes_def press_key_def plus_movement_keys_def)

lemma plus_defeat_keys: "plus_movement_keys (plus_defeat_wild_pokemon @ [Sleep h]) = []"
  by (simp add: plus_defeat_wild_pokemon_def press_key_def plus_movement_keys_def)

lemma plus_keys_tick:
  "plus_movement_keys (concat (tr # trs)) = plus_movement_keys tr @ plus_movement_keys (concat trs)"
  by simp

lemma plus_main_loop_moves:
  "d = ''right'' \<or> d = ''left'' \<Longrightarrow>
   \<exists>n. plus_movement_keys (concat (fst (plus_main_loop v d envs)))
        = map (\<lambda>k. if even k = (d = ''right'') then 0x25 else 0x27) [0..<n]"
proof (induction envs arbitrary: d)
  case Nil
  show ?case by (intro exI [of _ 0]) (simp add: plus_movement_keys_def)
next
  case (Cons e es)
  obtain d1 moved where mv: "plus_move_in_bushes d = (d1, moved)"
    by (metis prod.exhaust)
  have d1: "d1 = (if d = ''right'' then ''left'' else ''right'')"
    and km: "plus_movement_keys moved = [if d = ''right'' then 0x25 else 0x27]"
    using plus_move_keys [of d] mv by simp_all
  then have "d1 = ''right'' \<or> d1 = ''left''" by simp
  from Cons.IH [OF this] obtain n where n:
    "plus_movement_keys (concat (fst (plus_main_loop v d1 es)))
       = map (\<lambda>k. if even k = (d1 = ''right'') then 0x25 else 0x27) [0..<n]" ..
  have flip: "(d1 = ''right'') = (d \<noteq> ''right'')"
    using d1 Cons.prems by auto
  have step: "map (\<lambda>k. if even k = (d = ''right'') then 0x25 else 0x27) [0..<Suc n]
      = plus_movement_keys moved @ map (\<lambda>k. if even k = (d1 = ''right'') then 0x25 else (0x27::nat)) [0..<n]"
    using km flip by (simp only: map_upt_Suc) auto
  have one: "map (\<lambda>k. if even k = (d = ''right'') then 0x25 else 0x27) [0..<Suc 0]
      = plus_movement_keys moved"
    using km by simp
  consider (alerted) "fst (plus_main_loop v d (e # es)) = [moved]"
    | (fought) "fst (plus_main_loop v d (e # es))
          = (moved @ plus_defeat_wild_pokemon @ [Sleep 0.25]) # fst (plus_main_loop v d1 es)"
    | (walked) "fst (plus_main_loop v d (e # es)) = moved # fst (plus_main_loop v d1 es)"
  proof (cases "is_predefined_coord_reddish (pixel_client e) (fst REDDISH_CHECK_COORD)
               (snd REDDISH_CHECK_COORD)")
    case False
    then have "fst (plus_main_loop v d (e # es)) = moved # fst (plus_main_loop v d1 es)"
      using mv by (cases "plus_main_loop v d1 es") simp
    then show ?thesis by (rule walked)
  next
    case True
    show ?thesis
    proof (cases "list_ex (\<lambda>target. is_similar (plus_get_pokemon_name v (name_client e)) target 0.7)
        plus_target_pokemons")
      case m: True
      have "fst (plus_main_loop v d (e # es)) = [moved]"
        using mv True m by simp
      then show ?thesis by (rule alerted)
    next
      case m: False
      have "fst (plus_main_loop v d (e # es))
          = (moved @ plus_defeat_wild_pokemon @ [Sleep 0.25]) # fst (plus_main_loop v d1 es)"
        using mv True m by (cases "plus_main_loop v d1 es") simp
      then show ?thesis by (rule fought)
    qed
  qed
  then show ?case
  proof cases
    case alerted
    have "plus_movement_keys (concat (fst (plus_main_loop v d (e # es))))
        = plus_movement_keys moved"
      unfolding alerted by simp
    with one show ?thesis by (intro exI [of _ "Suc 0"]) (simp only:)
  next
    case fought
    have "plus_movement_keys (moved @ plus_defeat_wild_pokemon @ [Sleep 0.25])
        = plus_movement_keys moved"
      using plus_defeat_keys [of "0.25"] by (simp only: plus_movement_keys_append append_Nil2)
    then have "plus_movement_keys (concat (fst (plus_main_loop v d (e # es))))
        = plus_movement_keys moved @ plus_movement_keys (concat (fst (plus_main_loop v d1 es)))"
      unfolding fought by (simp only: plus_keys_tick)
    with step n show ?thesis by (intro exI [of _ "Suc n"]) (simp only:)
  next
    case walked
    have "plus_movement_keys (concat (fst (plus_main_loop v d (e # es))))
        = plus_movement_keys moved @ plus_movement_keys (concat (fst (plus_main_loop v d1 es)))"
      unfolding walked by (simp only: plus_keys_tick)
    with step n show ?thesis by (intro exI [of _ "Suc n"]) (simp only:)
  qed
qed


lemma run_loop_length:
  "\<forall>e \<in> set envs. \<not> stop_is_set e \<and> \<not> pause_is_set e \<Longrightarrow>
   snd (snd (run_loop v bt s envs)) = Running \<Longrightarrow>
   length (fst (run_loop v bt s envs)) = length envs"
proof (induction envs arbitrary: s)
  case Nil
  then show ?case by simp
next
  case (Cons e es)
  obtain s1 tr broke where b: "loop_body v bt e s = (s1, tr, broke)"
    by (metis prod_cases3)
  obtain trs s2 st where r: "run_loop v bt s1 es = (trs, s2, st)"
    by (metis prod_cases3)
  have act: "\<not> stop_is_set e" "\<not> pause_is_set e" and rest:
    "\<forall>e \<in> set es. \<not> stop_is_set e \<and> \<not> pause_is_set e"
    using Cons.prems(1) by simp_all
  have nb: "\<not> broke" and st: "st = Running"
    using Cons.prems(2) act b r by (auto split: if_splits)
  from Cons.IH [OF rest, of s1] r st have "length trs = length es" by simp
  then show ?case using act b r nb by simp
qed

lemma plus_main_loop_step:
  obtains tr where
    "plus_movement_keys tr = [if d = ''right'' then 0x25 else 0x27]"
    "(fst (plus_main_loop v d (e # es)) = [tr]
        \<and> snd (snd (plus_main_loop v d (e # es))) = Alerted)
     \<or> (fst (plus_main_loop v d (e # es))
          = tr # fst (plus_main_loop v (if d = ''right'' then ''left'' else ''right'') es)
        \<and> snd (plus_main_loop v d (e # es))
          = snd (plus_main_loop v (if d = ''right'' then ''left'' else ''right'') es))"
proof -
  let ?d1 = "if d = ''right'' then ''left'' else ''right''"
  obtain d1 moved where mv: "plus_move_in_bushes d = (d1, moved)"
    by (metis prod.exhaust)
  have d1: "d1 = ?d1"
    and km: "plus_movement_keys moved = [if d = ''right'' then 0x25 else 0x27]"
    using plus_move_keys [of d] mv by simp_all
  have kf: "plus_movement_keys (moved @ plus_defeat_wild_pokemon @ [Sleep 0.25])
        = [if d = ''right'' then 0x25 else 0x27]"
    using plus_defeat_keys [of "0.25"] km
    by (simp only: plus_movement_keys_append append_Nil2)
  show thesis
  proof (cases "is_predefined_coord_reddish (pixel_client e) (fst REDDISH_CHECK_COORD)
               (snd REDDISH_CHECK_COORD)")
    case False
    then have "fst (plus_main_loop v d (e # es)) = moved # fst (plus_main_loop v ?d1 es)
        \<and> snd (plus_main_loop v d (e # es)) = snd (plus_main_loop v ?d1 es)"
      using mv d1 by (cases "plus_main_loop v d1 es") simp
    with km show thesis by (intro that [of moved]) simp_all
  next
    case True
    show thesis
    proof (cases "list_ex (\<lambda>target. is_similar (plus_get_pokemon_name v (name_client e)) target 0.7)
        plus_target_pokemons")
      case m: True
      have "fst (plus_main_loop v d (e # es)) = [moved]
          \<and> snd (snd (plus_main_loop v d (e # es))) = Alerted"
        using mv True m by simp
      with km show thesis by (intro that [of moved]) simp_all
    next
      case m: False
      have "fst (plus_main_loop v d (e # es))
            = (moved @ plus_defeat_wild_pokemon @ [Sleep 0.25]) # fst (plus_main_loop v ?d1 es)
          \<and> snd (plus_main_loop v d (e # es)) = snd (plus_main_loop v ?d1 es)"
        using mv d1 True m by (cases "plus_main_loop v d1 es") simp
      with kf show thesis
        by (intro that [of "moved @ plus_defeat_wild_pokemon @ [Sleep 0.25]"]) simp_all
    qed
  qed
qed

lemma plus_main_loop_tick_moves:
  "d = ''right'' \<or> d = ''left'' \<Longrightarrow> k < length (fst (plus_main_loop v d envs)) \<Longrightarrow>
   plus_movement_keys (fst (plus_main_loop v d envs) ! k)
     = [if even k = (d = ''right'') then 0x25 else 0x27]"
proof (induction envs arbitrary: d k)
  case Nil
  then show ?case by simp
next
  case (Cons e es)
  let ?d1 = "if d = ''right'' then ''left'' else ''right''"
  have d1: "?d1 = ''right'' \<or> ?d1 = ''left''" by simp
  have flip: "(?d1 = ''right'') = (d \<noteq> ''right'')"
    using Cons.prems(1) by auto
  obtain tr where km: "plus_movement_keys tr = [if d = ''right'' then 0x25 else 0x27]"
    and st: "(fst (plus_main_loop v d (e # es)) = [tr]
        \<and> snd (snd (plus_main_loop v d (e # es))) = Alerted)
     \<or> (fst (plus_main_loop v d (e # es)) = tr # fst (plus_main_loop v ?d1 es)
        \<and> snd (plus_main_loop v d (e # es)) = snd (plus_main_loop v ?d1 es))"
    by (rule plus_main_loop_step [of d v e es])
  from st show ?case
  proof
    assume a: "fst (plus_main_loop v d (e # es)) = [tr]
        \<and> snd (snd (plus_main_loop v d (e # es))) = Alerted"
    then have "k = 0" using Cons.prems(2) by (simp del: plus_main_loop.simps)
    with a km show ?thesis by (simp del: plus_main_loop.simps)
  next
    assume a: "fst (plus_main_loop v d (e # es)) = tr # fst (plus_main_loop v ?d1 es)
        \<and> snd (plus_main_loop v d (e # es)) = snd (plus_main_loop v ?d1 es)"
    show ?thesis
    proof (cases k)
      case 0
      with a km show ?thesis by (simp del: plus_main_loop.simps)
    next
      case (Suc k')
      then have "k' < length (fst (plus_main_loop v ?d1 es))"
        using Cons.prems(2) a by (simp del: plus_main_loop.simps)
      from Cons.IH [OF d1 this] have
        "plus_movement_keys (fst (plus_main_loop v ?d1 es) ! k')
           = [if even k' = (?d1 = ''right'') then 0x25 else 0x27]" .
      then show ?thesis
        using a Suc flip by (auto simp del: plus_main_loop.simps)
    qed
  qed
qed

lemma plus_main_loop_length:
  "snd (snd (plus_main_loop v d envs)) = Running \<Longrightarrow>
   length (fst (plus_main_loop v d envs)) = length envs"
proof (induction envs arbitrary: d)
  case Nil
  then show ?case by simp
next
  case (Cons e es)
  let ?d1 = "if d = ''right'' then ''left'' else ''right''"
  obtain tr where
    st: "(fst (plus_main_loop v d (e # es)) = [tr]
        \<and> snd (snd (plus_main_loop v d (e # es))) = Alerted)
     \<or> (fst (plus_main_loop v d (e # es)) = tr # fst (plus_main_loop v ?d1 es)
        \<and> snd (plus_main_loop v d (e # es)) = snd (plus_main_loop v ?d1 es))"
    by (rule plus_main_loop_step [of d v e es])
  from st show ?case
  proof
    assume "fst (plus_main_loop v d (e # es)) = [tr]
        \<and> snd (snd (plus_main_loop v d (e # es))) = Alerted"
    with Cons.prems show ?thesis by (simp del: plus_main_loop.simps)
  next
    assume a: "fst (plus_main_loop v d (e # es)) = tr # fst (plus_main_loop v ?d1 es)
        \<and> snd (plus_main_loop v d (e # es)) = snd (plus_main_loop v ?d1 es)"
    then have "snd (snd (plus_main_loop v ?d1 es)) = Running"
      using Cons.prems by (simp del: plus_main_loop.simps)
    from Cons.IH [OF this] a show ?thesis by (simp del: plus_main_loop.simps)
  qed
qed

lemma plus_main_loop_direction:
  "d = ''right'' \<or> d = ''left'' \<Longrightarrow>
   fst (snd (plus_main_loop v d envs))
     = (if even (length (fst (plus_main_loop v d envs))) = (d = ''right'')
        then ''right'' else ''left'')"
proof (induction envs arbitrary: d)
  case Nil
  then show ?case by auto
next
  case (Cons e es)
  obtain d1 moved where mv: "plus_move_in_bushes d = (d1, moved)"
    by (metis prod.exhaust)
  have d1: "d1 = (if d = ''right'' then ''left'' else ''right'')"
    using plus_move_keys(2) [of d] mv by simp
  then have d1': "d1 = ''right'' \<or> d1 = ''left''" by simp
  have flip: "(d1 = ''right'') = (d \<noteq> ''right'')"
    using d1 Cons.prems by auto
  note ih = Cons.IH [OF d1']
  obtain trs d2 st where r: "plus_main_loop v d1 es = (trs, d2, st)"
    by (metis prod_cases3)
  show ?case
    using mv ih r flip Cons.prems d1
    by (auto simp: Let_def)
qed

lemma mac_and_plus_keys_alternate:
  "movement_keys (concat (fst (run_loop v bt (initial_state t0) envs)))
     = map (\<lambda>k. if even k then 124 else 123)
         [0..<length (movement_keys (concat (fst (run_loop v bt (initial_state t0) envs))))]
   \<and> ((\<forall>e \<in> set envs. \<not> stop_is_set e \<and> \<not> pause_is_set e) \<longrightarrow>
        (\<forall>k < length (fst (run_loop v bt (initial_state t0) envs)).
            movement_keys (fst (run_loop v bt (initial_state t0) envs) ! k)
              = [if even k then 124 else 123])
        \<and> (snd (snd (run_loop v bt (initial_state t0) envs)) = Running \<longrightarrow>
             length (fst (run_loop v bt (initial_state t0) envs)) = length envs))
   \<and> (loop_body v bt e s = (s', tr, broke) \<longrightarrow>
        movement_keys tr = [if last_dir s = 0 then 124 else 123]
        \<and> last_dir s' = (if last_dir s = 0 then 1 else 0))
   \<and> plus_movement_keys (concat (fst (plus_main_loop v ''right'' penvs)))
     = map (\<lambda>k. if even k then 0x25 else 0x27)
         [0..<length (plus_movement_keys (concat (fst (plus_main_loop v ''right'' penvs))))]"
proof (intro conjI impI allI)
  obtain n where n: "movement_keys (concat (fst (run_loop v bt (initial_state t0) envs)))
        = map (\<lambda>k. if even k = (last_dir (initial_state t0) = 0) then 124 else 123) [0..<n]"
    using run_loop_moves by blast
  then have "length (movement_keys (concat (fst (run_loop v bt (initial_state t0) envs)))) = n"
    by simp
  with n show "movement_keys (concat (fst (run_loop v bt (initial_state t0) envs)))
     = map (\<lambda>k. if even k then 124 else 123)
         [0..<length (movement_keys (concat (fst (run_loop v bt (initial_state t0) envs))))]"
    by (simp add: initial_state_def)
next
  fix k
  assume "\<forall>e \<in> set envs. \<not> stop_is_set e \<and> \<not> pause_is_set e"
    and "k < length (fst (run_loop v bt (initial_state t0) envs))"
  from run_loop_tick_moves [OF this]
  show "movement_keys (fst (run_loop v bt (initial_state t0) envs) ! k)
              = [if even k then 124 else 123]"
    by (simp add: initial_state_def)
next
  assume "\<forall>e \<in> set envs. \<not> stop_is_set e \<and> \<not> pause_is_set e"
    and "snd (snd (run_loop v bt (initial_state t0) envs)) = Running"
  then show "length (fst (run_loop v bt (initial_state t0) envs)) = length envs"
    by (rule run_loop_length)
next
  assume "loop_body v bt e s = (s', tr, broke)"
  from loop_body_moves [OF this]
  show "movement_keys tr = [if last_dir s = 0 then 124 else 123]"
    and "last_dir s' = (if last_dir s = 0 then 1 else 0)"
    by simp_all
next
  obtain n where n: "plus_movement_keys (concat (fst (plus_main_loop v ''right'' penvs)))
        = map (\<lambda>k. if even k = (''right'' = ''right'') then 0x25 else 0x27) [0..<n]"
    using plus_main_loop_moves [of "''right''"] by blast
  then have "length (plus_movement_keys (concat (fst (plus_main_loop v ''right'' penvs)))) = n"
    by simp
  with n show "plus_movement_keys (concat (fst (plus_main_loop v ''right'' penvs)))
     = map (\<lambda>k. if even k then 0x25 else 0x27)
         [0..<length (plus_movement_keys (concat (fst (plus_main_loop v ''right'' penvs))))]"
    by simp
qed

text \<open>
  Claim C6. The arrow keys pressed over a run of the loop, from the initial direction
  bit 0 set at loop start, are right (key code 124), left (123), right, ... in strict
  alternation, whatever the run (pauses press no key and keep the bit). When no
  iteration is paused or stopped, iteration number \<open>k\<close> presses exactly one arrow key,
  the right one for even \<open>k\<close> and the left one for odd \<open>k\<close>, and a run of \<open>N\<close> such
  iterations that is still running has made \<open>N\<close> of them. Every movement step
  presses the key opposite to the last one and toggles the stored bit. The Windows
  script does the same from its initial direction \<open>"right"\<close>: every movement step
  presses the key opposite to the stored direction and stores that direction;
  iteration number \<open>k\<close> of its loop presses exactly one arrow key, left (virtual key
  0x25) for even \<open>k\<close> and right (0x27) for odd \<open>k\<close>; a loop still running after \<open>N\<close>
  iterations has made \<open>N\<close> of them; and the stored direction is \<open>"right"\<close> after an
  even number of iterations and \<open>"left"\<close> after an odd number.
\<close>

theorem movement_strictly_alternates:
  "movement_keys (concat (fst (run_loop v bt (initial_state t0) envs)))
     = map (\<lambda>k. if even k then 124 else 123)
         [0..<length (movement_keys (concat (fst (run_loop v bt (initial_state t0) envs))))]
   \<and> ((\<forall>e \<in> set envs. \<not> stop_is_set e \<and> \<not> pause_is_set e) \<longrightarrow>
        (\<forall>k < length (fst (run_loop v bt (initial_state t0) envs)).
            movement_keys (fst (run_loop v bt (initial_state t0) envs) ! k)
              = [if even k then 124 else 123])
        \<and> (snd (snd (run_loop v bt (initial_state t0) envs)) = Running \<longrightarrow>
             length (fst (run_loop v bt (initial_state t0) envs)) = length envs))
   \<and> (loop_body v bt e s = (s', tr, broke) \<longrightarrow>
        movement_keys tr = [if last_dir s = 0 then 124 else 123]
        \<and> last_dir s' = (if last_dir s = 0 then 1 else 0))
   \<and> plus_movement_keys (concat (fst (plus_main_loop v ''right'' penvs)))
     = map (\<lambda>k. if even k then 0x25 else 0x27)
         [0..<length (plus_movement_keys (concat (fst (plus_main_loop v ''right'' penvs))))]
   \<and> (\<forall>k < length (fst (plus_main_loop v ''right'' penvs)).
          plus_movement_keys (fst (plus_main_loop v ''right'' penvs) ! k)
            = [if even k then 0x25 else 0x27])
   \<and> (snd (snd (plus_main_loop v ''right'' penvs)) = Running \<longrightarrow>
        length (fst (plus_main_loop v ''right'' penvs)) = length penvs)
   \<and> fst (snd (plus_main_loop v ''right'' penvs))
     = (if even (length (fst (plus_main_loop v ''right'' penvs))) then ''right'' else ''left'')
   \<and> plus_movement_keys (snd (plus_move_in_bushes d)) = [if d = ''right'' then 0x25 else 0x27]
   \<and> fst (plus_move_in_bushes d) = (if d = ''right'' then ''left'' else ''right'')"
proof (intro conjI)
  show "movement_keys (concat (fst (run_loop v bt (initial_state t0) envs)))
     = map (\<lambda>k. if even k then 124 else 123)
         [0..<length (movement_keys (concat (fst (run_loop v bt (initial_state t0) envs))))]"
    and "(\<forall>e \<in> set envs. \<not> stop_is_set e \<and> \<not> pause_is_set e) \<longrightarrow>
        (\<forall>k < length (fst (run_loop v bt (initial_state t0) envs)).
            movement_keys (fst (run_loop v bt (initial_state t0) envs) ! k)
              = [if even k then 124 else 123])
        \<and> (snd (snd (run_loop v bt (initial_state t0) envs)) = Running \<longrightarrow>
             length (fst (run_loop v bt (initial_state t0) envs)) = length envs)"
    and "loop_body v bt e s = (s', tr, broke) \<longrightarrow>
        movement_keys tr = [if last_dir s = 0 then 124 else 123]
        \<and> last_dir s' = (if last_dir s = 0 then 1 else 0)"
    and "plus_movement_keys (concat (fst (plus_main_loop v ''right'' penvs)))
     = map (\<lambda>k. if even k then 0x25 else 0x27)
         [0..<length (plus_movement_keys (concat (fst (plus_main_loop v ''right'' penvs))))]"
    using mac_and_plus_keys_alternate [of v bt t0 envs e s s' tr broke penvs]
    by blast+
next
  show "\<forall>k < length (fst (plus_main_loop v ''right'' penvs)).
          plus_movement_keys (fst (plus_main_loop v ''right'' penvs) ! k)
            = [if even k then 0x25 else 0x27]"
    using plus_main_loop_tick_moves [of "''right''" _ v penvs] by simp
next
  show "snd (snd (plus_main_loop v ''right'' penvs)) = Running \<longrightarrow>
        length (fst (plus_main_loop v ''right'' penvs)) = length penvs"
    using plus_main_loop_length [of v "''right''" penvs] by blast
next
  show "fst (snd (plus_main_loop v ''right'' penvs))
     = (if even (length (fst (plus_main_loop v ''right'' penvs))) then ''right'' else ''left'')"
    using plus_main_loop_direction [of "''right''" v penvs] by simp
next
  show "plus_movement_keys (snd (plus_move_in_bushes d)) = [if d = ''right'' then 0x25 else 0x27]"
    by (rule plus_move_keys(1))
next
  show "fst (plus_move_in_bushes d) = (if d = ''right'' then ''left'' else ''right'')"
    by (rule plus_move_keys(2))
qed

theorem movement_strictly_alternates_witness:
  "movement_keys (concat (fst (run_loop
       \<lparr>cvtColor_RGB2GRAY = (\<lambda>img. []), image_to_string = (\<lambda>img. [])\<rparr>
       \<lparr>pokeball_region = (1380, 330, 60, 20), name_region = (1224, 339, 145, 20),
        target_pokemons = [''Garchomp''], move_choice = ''1''\<rparr>
       (initial_state 0)
       [\<lparr>stop_is_set = False, pause_is_set = False, pokeball_frame = None, name_frame = None,
         clock_at_encounter = 1, clock_at_watchdog = 1\<rparr>,
        \<lparr>stop_is_set = False, pause_is_set = False, pokeball_frame = None, name_frame = None,
         clock_at_encounter = 2, clock_at_watchdog = 2\<rparr>,
        \<lparr>stop_is_set = False, pause_is_set = False, pokeball_frame = None, name_frame = None,
         clock_at_encounter = 3, clock_at_watchdog = 3\<rparr>])))
     = [124, 123, 124]
   \<and> map plus_movement_keys (fst (plus_main_loop
       \<lparr>cvtColor_RGB2GRAY = (\<lambda>img. []), image_to_string = (\<lambda>img. [])\<rparr>
       ''right''
       [\<lparr>pixel_client = [], name_client = []\<rparr>, \<lparr>pixel_client = [], name_client = []\<rparr>,
        \<lparr>pixel_client = [], name_client = []\<rparr>]))
     = [[0x25], [0x27], [0x25]]"
proof -
  let ?v = "\<lparr>cvtColor_RGB2GRAY = (\<lambda>img. []), image_to_string = (\<lambda>img. [])\<rparr>"
  let ?bt = "\<lparr>pokeball_region = (1380, 330, 60, 20), name_region = (1224, 339, 145, 20),
        target_pokemons = [''Garchomp''], move_choice = ''1''\<rparr>"
  let ?envs = "[\<lparr>stop_is_set = False, pause_is_set = False, pokeball_frame = None,
         name_frame = None, clock_at_encounter = 1, clock_at_watchdog = 1\<rparr>,
        \<lparr>stop_is_set = False, pause_is_set = False, pokeball_frame = None, name_frame = None,
         clock_at_encounter = 2, clock_at_watchdog = 2\<rparr>,
        \<lparr>stop_is_set = False, pause_is_set = False, pokeball_frame = None, name_frame = None,
         clock_at_encounter = 3, clock_at_watchdog = 3\<rparr>]"
  let ?penvs = "[\<lparr>pixel_client = [], name_client = []\<rparr>, \<lparr>pixel_client = [], name_client = []\<rparr>,
        \<lparr>pixel_client = [], name_client = []\<rparr>]"
  define trs where "trs = fst (run_loop ?v ?bt (initial_state 0) ?envs)"
  define ptrs where "ptrs = fst (plus_main_loop ?v ''right'' ?penvs)"
  have act: "\<forall>e \<in> set ?envs. \<not> stop_is_set e \<and> \<not> pause_is_set e"
    by simp
  have run: "snd (snd (run_loop ?v ?bt (initial_state 0) ?envs)) = Running"
    by (simp add: loop_body_def is_reddish_in_region_def capture_window_mac_def
        move_in_bushes_def watchdog_def initial_state_def Let_def)
  have dark: "\<not> is_predefined_coord_reddish [] (fst REDDISH_CHECK_COORD) (snd REDDISH_CHECK_COORD)"
    by (simp add: plus_detector_one_pixel pixel_at_def)
  have prun: "snd (snd (plus_main_loop ?v ''right'' ?penvs)) = Running"
    by (simp add: dark plus_move_in_bushes_def)
  note inst = movement_strictly_alternates
    [of ?v ?bt 0 ?envs _ _ _ _ _ ?penvs, folded trs_def ptrs_def]
  from inst act have ticks:
    "\<forall>k < length trs. movement_keys (trs ! k) = [if even k then 124 else 123]"
    by blast
  from inst act run [folded trs_def] have "length trs = length ?envs"
    unfolding trs_def by blast
  then have len: "length trs = 3" by simp
  obtain t0 t1 t2 where trs: "trs = [t0, t1, t2]"
    using len by (auto simp: length_Suc_conv numeral_3_eq_3)
  from ticks have "movement_keys t0 = [124]" "movement_keys t1 = [123]" "movement_keys t2 = [124]"
    unfolding trs by (auto simp: All_less_Suc numeral_3_eq_3)
  then have mac: "movement_keys (concat trs) = [124, 123, 124]"
    unfolding trs by simp
  from inst have pticks:
    "\<forall>k < length ptrs. plus_movement_keys (ptrs ! k) = [if even k then 0x25 else 0x27]"
    by blast
  from inst prun [folded ptrs_def] have "length ptrs = length ?penvs"
    unfolding ptrs_def by blast
  then have plen: "length ptrs = 3" by simp
  obtain p0 p1 p2 where ptrs: "ptrs = [p0, p1, p2]"
    using plen by (auto simp: length_Suc_conv numeral_3_eq_3)
  from pticks have "plus_movement_keys p0 = [0x25]" "plus_movement_keys p1 = [0x27]"
    "plus_movement_keys p2 = [0x25]"
    unfolding ptrs by (auto simp: All_less_Suc numeral_3_eq_3)
  then have win: "map plus_movement_keys ptrs = [[0x25], [0x27], [0x25]]"
    unfolding ptrs by simp
  from mac win show ?thesis
    unfolding trs_def ptrs_def by (intro conjI)
qed

section \<open>The watchdog check within an iteration\<close>

lemma watchdog_checked_append [simp]:
  "watchdog_checked (xs @ ys) \<longleftrightarrow> watchdog_checked xs \<or> watchdog_checked ys"
  by (simp add: watchdog_checked_def)

lemma watchdog_checked_simps [simp]:
  "watchdog_checked [] = False"
  "watchdog_checked (Watchdog_check now # tr) = True"
  "watchdog_checked (Key_down c # tr) = watchdog_checked tr"
  "watchdog_checked (Key_up c # tr) = watchdog_checked tr"
  "watchdog_checked (Sleep d # tr) = watchdog_checked tr"
  "watchdog_checked (Print_unknown_key k # tr) = watchdog_checked tr"
  "watchdog_checked (Log m # tr) = watchdog_checked tr"
  "watchdog_checked (Afplay # tr) = watchdog_checked tr"
  "watchdog_checked (Detector_result b # tr) = watchdog_checked tr"
  by (simp_all add: watchdog_checked_def)

lemma watchdog_checked_press [simp]: "\<not> watchdog_checked (press_key_mac k h)"
  by (simp add: press_key_mac_def split: option.splits)

lemma watchdog_checked_move [simp]: "\<not> watchdog_checked (snd (move_in_bushes d))"
  by (simp add: move_in_bushes_def)

lemma watchdog_checked_defeat [simp]: "\<not> watchdog_checked (defeat_wild_pokemon bt)"
  by (simp add: defeat_wild_pokemon_def Let_def)

lemma loop_body_broke:
  "loop_body v bt e s = (s', tr, broke) \<Longrightarrow> broke = target_matched v bt e"
  by (auto simp: loop_body_def target_matched_def Let_def split: prod.splits if_splits)

lemma loop_body_matched:
  assumes "loop_body v bt e s = (s', tr, broke)" and "target_matched v bt e"
  shows "\<not> watchdog_checked tr"
proof -
  obtain d moved where mv: "move_in_bushes (last_dir s) = (d, moved)"
    by (metis prod.exhaust)
  have nm: "\<not> watchdog_checked moved"
    using watchdog_checked_move [of "last_dir s"] mv by simp
  show ?thesis
    using assms mv nm
    by (auto simp: loop_body_def target_matched_def Let_def beep_def split: prod.splits if_splits)
qed

lemma loop_body_unmatched:
  assumes "loop_body v bt e s = (s', tr, broke)" and "\<not> target_matched v bt e"
  shows "\<exists>pre post. tr = pre @ Watchdog_check (clock_at_watchdog e) # post
           \<and> Detector_result (is_reddish_in_region (pokeball_frame e) (pokeball_region bt)
                 lower_thresh_default upper_thresh_default) \<in> set pre
           \<and> \<not> watchdog_checked pre \<and> \<not> watchdog_checked post"
proof -
  obtain d moved where mv: "move_in_bushes (last_dir s) = (d, moved)"
    by (metis prod.exhaust)
  have nm: "\<not> watchdog_checked moved"
    using watchdog_checked_move [of "last_dir s"] mv by simp
  let ?now = "clock_at_watchdog e"
  show ?thesis
  proof (cases "is_reddish_in_region (pokeball_frame e) (pokeball_region bt)
                 lower_thresh_default upper_thresh_default")
    case False
    let ?s1 = "s\<lparr>last_dir := d\<rparr>"
    have tr: "tr = (moved @ [Detector_result False]) @ Watchdog_check ?now
                # (snd (watchdog ?now ?s1) @ [Sleep 0.1])"
      using assms(1) mv False by (auto simp: loop_body_def Let_def split: prod.splits)
    show ?thesis
      using nm False
      by (intro exI [of _ "moved @ [Detector_result False]"]
          exI [of _ "snd (watchdog ?now ?s1) @ [Sleep 0.1]"])
        (simp add: tr watchdog_def beep_def)
  next
    case True
    let ?s2 = "s\<lparr>last_dir := d, encounter_count := encounter_count s + 1,
                   last_encounter_time := clock_at_encounter e,
                   next_check_time := clock_at_encounter e + 10\<rparr>"
    let ?name = "get_pokemon_name v (name_frame e) (name_region bt)"
    let ?pre = "moved @ [Detector_result True, Log (Wild_pokemon_encountered (encounter_count s + 1)),
                  Log (Encountered_pokemon ?name), Log (Defeating_using_move (move_choice bt))]
                  @ defeat_wild_pokemon bt @ [Sleep 0.1]"
    have nomatch: "\<not> list_ex (\<lambda>t. is_similar ?name t 0.7) (target_pokemons bt)"
      using assms(2) True by (simp add: target_matched_def)
    have tr: "tr = ?pre @ Watchdog_check ?now # (snd (watchdog ?now ?s2) @ [Sleep 0.1])"
      using assms(1) mv True nomatch by (auto simp: loop_body_def Let_def split: prod.splits)
    show ?thesis
      using nm True
      by (intro exI [of _ ?pre] exI [of _ "snd (watchdog ?now ?s2) @ [Sleep 0.1]"])
        (simp add: tr watchdog_def beep_def)
  qed
qed




lemma similar_garchomp: "is_similar ''Garchomp'' ''Garchomp'' 0.7"
  by code_simp


section \<open>The schedule of the watchdog alert\<close>

lemma no_alert_in_move: "Log m \<notin> set (snd (move_in_bushes d))"
  by (simp add: move_in_bushes_def press_key_mac_def MAC_KEYCODES_def)

lemma quiet_step:
  assumes q: "quiet_tick bt e" and inv: "last_encounter_time s + 10 \<le> next_check_time s"
  obtains s1 tr where
    "fst (run_loop v bt s (e # es)) = tr # fst (run_loop v bt s1 es)"
    "no_encounters_alert tr \<longleftrightarrow> next_check_time s \<le> clock_at_watchdog e"
    "next_check_time s1 = (if next_check_time s \<le> clock_at_watchdog e
                            then clock_at_watchdog e + 10 else next_check_time s)"
    "last_encounter_time s1 = last_encounter_time s"
proof -
  let ?now = "clock_at_watchdog e"
  let ?s0 = "s\<lparr>last_dir := fst (move_in_bushes (last_dir s))\<rparr>"
  let ?s1 = "fst (watchdog ?now ?s0)"
  let ?tr = "snd (move_in_bushes (last_dir s)) @ [Detector_result False, Watchdog_check ?now]
               @ snd (watchdog ?now ?s0) @ [Sleep 0.1]"
  have b: "loop_body v bt e s = (?s1, ?tr, False)"
    using q by (simp add: loop_body_def quiet_tick_def Let_def split: prod.splits)
  have 1: "fst (run_loop v bt s (e # es)) = ?tr # fst (run_loop v bt ?s1 es)"
    using q b by (cases "run_loop v bt ?s1 es") (simp add: quiet_tick_def)
  have 2: "no_encounters_alert ?tr \<longleftrightarrow> next_check_time s \<le> ?now"
    using inv no_alert_in_move [of No_encounters_beep "last_dir s"]
    by (auto simp: no_encounters_alert_def watchdog_def beep_def)
  have 3: "next_check_time ?s1 = (if next_check_time s \<le> ?now then ?now + 10
                                   else next_check_time s)"
    by (simp add: watchdog_def)
  have 4: "last_encounter_time ?s1 = last_encounter_time s"
    by (simp add: watchdog_def)
  from 1 2 3 4 show thesis by (rule that)
qed

lemma quiet_length:
  "list_all (quiet_tick bt) envs \<Longrightarrow> last_encounter_time s + 10 \<le> next_check_time s \<Longrightarrow>
   length (fst (run_loop v bt s envs)) = length envs"
proof (induction envs arbitrary: s)
  case Nil
  then show ?case by simp
next
  case (Cons e es)
  from Cons.prems have q: "quiet_tick bt e" and qs: "list_all (quiet_tick bt) es"
    by simp_all
  from quiet_step [OF q Cons.prems(2), of v es] obtain s1 tr where
    r: "fst (run_loop v bt s (e # es)) = tr # fst (run_loop v bt s1 es)"
    and nc: "next_check_time s1 = (if next_check_time s \<le> clock_at_watchdog e
                            then clock_at_watchdog e + 10 else next_check_time s)"
    and le: "last_encounter_time s1 = last_encounter_time s"
    by blast
  have "last_encounter_time s1 + 10 \<le> next_check_time s1"
    using Cons.prems(2) nc le by auto
  from Cons.IH [OF qs this] show ?case unfolding r by simp
qed

lemma quiet_alert_not_before_deadline:
  "list_all (quiet_tick bt) envs \<Longrightarrow> last_encounter_time s + 10 \<le> next_check_time s \<Longrightarrow>
   k < length envs \<Longrightarrow> no_encounters_alert (fst (run_loop v bt s envs) ! k) \<Longrightarrow>
   next_check_time s \<le> clock_at_watchdog (envs ! k)"
proof (induction envs arbitrary: s k)
  case Nil
  then show ?case by simp
next
  case (Cons e es)
  from Cons.prems have q: "quiet_tick bt e" and qs: "list_all (quiet_tick bt) es"
    by simp_all
  from quiet_step [OF q Cons.prems(2), of v es] obtain s1 tr where
    r: "fst (run_loop v bt s (e # es)) = tr # fst (run_loop v bt s1 es)"
    and al: "no_encounters_alert tr \<longleftrightarrow> next_check_time s \<le> clock_at_watchdog e"
    and nc: "next_check_time s1 = (if next_check_time s \<le> clock_at_watchdog e
                            then clock_at_watchdog e + 10 else next_check_time s)"
    and le: "last_encounter_time s1 = last_encounter_time s"
    by blast
  have inv1: "last_encounter_time s1 + 10 \<le> next_check_time s1"
    using Cons.prems(2) nc le by auto
  have mono: "next_check_time s \<le> next_check_time s1"
    using nc by auto
  show ?case
  proof (cases k)
    case 0
    then show ?thesis using Cons.prems(4) r al by simp
  next
    case (Suc k')
    then have "k' < length es" "no_encounters_alert (fst (run_loop v bt s1 es) ! k')"
      using Cons.prems(3,4) r by simp_all
    from Cons.IH [OF qs inv1 this] mono show ?thesis
      using Suc by simp
  qed
qed

lemma quiet_first_alert:
  "list_all (quiet_tick bt) envs \<Longrightarrow> last_encounter_time s + 10 \<le> next_check_time s \<Longrightarrow>
   k < length envs \<Longrightarrow> \<forall>m<k. clock_at_watchdog (envs ! m) < next_check_time s \<Longrightarrow>
   next_check_time s \<le> clock_at_watchdog (envs ! k) \<Longrightarrow>
   no_encounters_alert (fst (run_loop v bt s envs) ! k)
   \<and> (\<forall>m<k. \<not> no_encounters_alert (fst (run_loop v bt s envs) ! m))"
proof (induction envs arbitrary: s k)
  case Nil
  then show ?case by simp
next
  case (Cons e es)
  from Cons.prems have q: "quiet_tick bt e" and qs: "list_all (quiet_tick bt) es"
    by simp_all
  from quiet_step [OF q Cons.prems(2), of v es] obtain s1 tr where
    r: "fst (run_loop v bt s (e # es)) = tr # fst (run_loop v bt s1 es)"
    and al: "no_encounters_alert tr \<longleftrightarrow> next_check_time s \<le> clock_at_watchdog e"
    and nc: "next_check_time s1 = (if next_check_time s \<le> clock_at_watchdog e
                            then clock_at_watchdog e + 10 else next_check_time s)"
    and le: "last_encounter_time s1 = last_encounter_time s"
    by blast
  have inv1: "last_encounter_time s1 + 10 \<le> next_check_time s1"
    using Cons.prems(2) nc le by auto
  show ?case
  proof (cases k)
    case 0
    then show ?thesis using Cons.prems(5) r al by simp
  next
    case (Suc k')
    have head: "clock_at_watchdog e < next_check_time s"
      using Cons.prems(4) Suc by auto
    then have same: "next_check_time s1 = next_check_time s" and quiet0: "\<not> no_encounters_alert tr"
      using nc al by auto
    have "k' < length es" "\<forall>m<k'. clock_at_watchdog (es ! m) < next_check_time s1"
      "next_check_time s1 \<le> clock_at_watchdog (es ! k')"
      using Cons.prems(3,4,5) Suc same by auto
    from Cons.IH [OF qs inv1 this] quiet0 show ?thesis
      using Suc r by (auto simp: All_less_Suc2)
  qed
qed

lemma quiet_next_alert:
  "list_all (quiet_tick bt) envs \<Longrightarrow> last_encounter_time s + 10 \<le> next_check_time s \<Longrightarrow>
   k < l \<Longrightarrow> l < length envs \<Longrightarrow> no_encounters_alert (fst (run_loop v bt s envs) ! k) \<Longrightarrow>
   \<forall>m. k < m \<and> m < l \<longrightarrow> clock_at_watchdog (envs ! m) < clock_at_watchdog (envs ! k) + 10 \<Longrightarrow>
   clock_at_watchdog (envs ! k) + 10 \<le> clock_at_watchdog (envs ! l) \<Longrightarrow>
   no_encounters_alert (fst (run_loop v bt s envs) ! l)
   \<and> (\<forall>m. k < m \<and> m < l \<longrightarrow> \<not> no_encounters_alert (fst (run_loop v bt s envs) ! m))"
proof (induction envs arbitrary: s k l)
  case Nil
  then show ?case by simp
next
  case (Cons e es)
  from Cons.prems have q: "quiet_tick bt e" and qs: "list_all (quiet_tick bt) es"
    by simp_all
  from quiet_step [OF q Cons.prems(2), of v es] obtain s1 tr where
    r: "fst (run_loop v bt s (e # es)) = tr # fst (run_loop v bt s1 es)"
    and al: "no_encounters_alert tr \<longleftrightarrow> next_check_time s \<le> clock_at_watchdog e"
    and nc: "next_check_time s1 = (if next_check_time s \<le> clock_at_watchdog e
                            then clock_at_watchdog e + 10 else next_check_time s)"
    and le: "last_encounter_time s1 = last_encounter_time s"
    by blast
  have inv1: "last_encounter_time s1 + 10 \<le> next_check_time s1"
    using Cons.prems(2) nc le by auto
  obtain l' where l: "l = Suc l'"
    using Cons.prems(3) by (cases l) auto
  show ?case
  proof (cases k)
    case 0
    then have "no_encounters_alert tr" using Cons.prems(5) r by simp
    then have nc1: "next_check_time s1 = clock_at_watchdog e + 10"
      using al nc by simp
    have "l' < length es" using Cons.prems(4) l by simp
    moreover have "\<forall>m<l'. clock_at_watchdog (es ! m) < next_check_time s1"
    proof (intro allI impI)
      fix m assume "m < l'"
      then have "k < Suc m \<and> Suc m < l" using 0 l by simp
      from Cons.prems(6) [rule_format, OF this] show
        "clock_at_watchdog (es ! m) < next_check_time s1"
        using 0 nc1 by simp
    qed
    moreover have "next_check_time s1 \<le> clock_at_watchdog (es ! l')"
      using Cons.prems(7) 0 l nc1 by simp
    ultimately have f: "no_encounters_alert (fst (run_loop v bt s1 es) ! l')
        \<and> (\<forall>m<l'. \<not> no_encounters_alert (fst (run_loop v bt s1 es) ! m))"
      by (rule quiet_first_alert [OF qs inv1])
    show ?thesis
    proof (intro conjI allI impI)
      show "no_encounters_alert (fst (run_loop v bt s (e # es)) ! l)"
        using f l r by simp
    next
      fix m assume m: "k < m \<and> m < l"
      then obtain m' where m': "m = Suc m'" using 0 by (cases m) auto
      then have "m' < l'" using m l by simp
      with f show "\<not> no_encounters_alert (fst (run_loop v bt s (e # es)) ! m)"
        using m' r by simp
    qed
  next
    case (Suc k')
    have 1: "k' < l'" "l' < length es" using Cons.prems(3,4) Suc l by simp_all
    have 2: "no_encounters_alert (fst (run_loop v bt s1 es) ! k')"
      using Cons.prems(5) Suc r by simp
    have 3: "\<forall>m. k' < m \<and> m < l' \<longrightarrow>
        clock_at_watchdog (es ! m) < clock_at_watchdog (es ! k') + 10"
    proof (intro allI impI)
      fix m assume "k' < m \<and> m < l'"
      then have "k < Suc m \<and> Suc m < l" using Suc l by simp
      from Cons.prems(6) [rule_format, OF this] show
        "clock_at_watchdog (es ! m) < clock_at_watchdog (es ! k') + 10"
        using Suc by simp
    qed
    have 4: "clock_at_watchdog (es ! k') + 10 \<le> clock_at_watchdog (es ! l')"
      using Cons.prems(7) Suc l by simp
    from Cons.IH [OF qs inv1 1 2 3 4]
    have f: "no_encounters_alert (fst (run_loop v bt s1 es) ! l')
       \<and> (\<forall>m. k' < m \<and> m < l' \<longrightarrow> \<not> no_encounters_alert (fst (run_loop v bt s1 es) ! m))" .
    show ?thesis
    proof (intro conjI allI impI)
      show "no_encounters_alert (fst (run_loop v bt s (e # es)) ! l)"
        using f l r by simp
    next
      fix m assume m: "k < m \<and> m < l"
      then obtain m' where m': "m = Suc m'" using Suc by (cases m) auto
      then have "k' < m' \<and> m' < l'" using m l Suc by simp
      with f show "\<not> no_encounters_alert (fst (run_loop v bt s (e # es)) ! m)"
        using m' r by simp
    qed
  qed
qed

lemma quiet_alert_gap:
  "list_all (quiet_tick bt) envs \<Longrightarrow> last_encounter_time s + 10 \<le> next_check_time s \<Longrightarrow>
   k < l \<Longrightarrow> l < length envs \<Longrightarrow> no_encounters_alert (fst (run_loop v bt s envs) ! k) \<Longrightarrow>
   no_encounters_alert (fst (run_loop v bt s envs) ! l) \<Longrightarrow>
   clock_at_watchdog (envs ! k) + 10 \<le> clock_at_watchdog (envs ! l)"
proof (induction envs arbitrary: s k l)
  case Nil
  then show ?case by simp
next
  case (Cons e es)
  from Cons.prems have q: "quiet_tick bt e" and qs: "list_all (quiet_tick bt) es"
    by simp_all
  from quiet_step [OF q Cons.prems(2), of v es] obtain s1 tr where
    r: "fst (run_loop v bt s (e # es)) = tr # fst (run_loop v bt s1 es)"
    and al: "no_encounters_alert tr \<longleftrightarrow> next_check_time s \<le> clock_at_watchdog e"
    and nc: "next_check_time s1 = (if next_check_time s \<le> clock_at_watchdog e
                            then clock_at_watchdog e + 10 else next_check_time s)"
    and le: "last_encounter_time s1 = last_encounter_time s"
    by blast
  have inv1: "last_encounter_time s1 + 10 \<le> next_check_time s1"
    using Cons.prems(2) nc le by auto
  obtain l' where l: "l = Suc l'"
    using Cons.prems(3) by (cases l) auto
  have ll: "l' < length es" using Cons.prems(4) l by simp
  have al_l: "no_encounters_alert (fst (run_loop v bt s1 es) ! l')"
    using Cons.prems(6) l r by simp
  show ?case
  proof (cases k)
    case 0
    then have "no_encounters_alert tr" using Cons.prems(5) r by simp
    then have nc1: "next_check_time s1 = clock_at_watchdog e + 10"
      using al nc by simp
    from quiet_alert_not_before_deadline [OF qs inv1 ll al_l] nc1 show ?thesis
      using 0 l by simp
  next
    case (Suc k')
    have "k' < l'" using Cons.prems(3) Suc l by simp
    moreover have "no_encounters_alert (fst (run_loop v bt s1 es) ! k')"
      using Cons.prems(5) Suc r by simp
    ultimately show ?thesis
      using Cons.IH [OF qs inv1 _ ll _ al_l] Suc l by simp
  qed
qed


text \<open>
  Claim C2. In a run from \<open>t0\<close> whose iterations all run and report no encounter:
  no alert is emitted at a clock reading below \<open>t0 + 10\<close>; the first iteration whose
  reading has reached \<open>t0 + 10\<close> emits the first alert (at \<open>t0 + 10\<close> when the reading
  is exactly that); after an alert at reading \<open>c\<close> the next alert is emitted by the
  first iteration whose reading has reached \<open>c + 10\<close> (at \<open>t0 + 20\<close> after an alert at
  \<open>t0 + 10\<close>) and by none before it; two alerts are always at least 10 seconds
  apart. Whenever the watchdog check triggers, in any state, the next check time
  becomes the reading plus 10, whether or not the alert is emitted; when it does not
  trigger, nothing changes.
\<close>

theorem watchdog_alert_schedule:
  assumes "list_all (quiet_tick bt) envs"
  shows "let trs = fst (run_loop v bt (initial_state t0) envs);
             alert = (\<lambda>k. no_encounters_alert (trs ! k));
             clock = (\<lambda>k. clock_at_watchdog (envs ! k))
         in length trs = length envs
            \<and> (\<forall>k<length envs. alert k \<longrightarrow> t0 + 10 \<le> clock k)
            \<and> (\<forall>k<length envs. (\<forall>m<k. clock m < t0 + 10) \<and> t0 + 10 \<le> clock k \<longrightarrow>
                  alert k \<and> (\<forall>m<k. \<not> alert m))
            \<and> (\<forall>k l. k < l \<and> l < length envs \<and> alert k
                    \<and> (\<forall>m. k < m \<and> m < l \<longrightarrow> clock m < clock k + 10)
                    \<and> clock k + 10 \<le> clock l \<longrightarrow>
                  alert l \<and> (\<forall>m. k < m \<and> m < l \<longrightarrow> \<not> alert m))
            \<and> (\<forall>k l. k < l \<and> l < length envs \<and> alert k \<and> alert l \<longrightarrow> clock k + 10 \<le> clock l)
            \<and> (\<forall>s now. next_check_time s \<le> now \<longrightarrow>
                  next_check_time (fst (watchdog now s)) = now + 10)
            \<and> (\<forall>s now. now < next_check_time s \<longrightarrow> watchdog now s = (s, []))"
proof -
  let ?s = "initial_state t0"
  have inv: "last_encounter_time ?s + 10 \<le> next_check_time ?s"
    and nc: "next_check_time ?s = t0 + 10"
    by (simp_all add: initial_state_def)
  note q = assms
  have 1: "length (fst (run_loop v bt ?s envs)) = length envs"
    by (rule quiet_length [OF q inv])
  have 2: "\<forall>k<length envs. no_encounters_alert (fst (run_loop v bt ?s envs) ! k) \<longrightarrow>
      t0 + 10 \<le> clock_at_watchdog (envs ! k)"
    using quiet_alert_not_before_deadline [OF q inv, of _ v] nc by simp
  have 3: "\<forall>k<length envs. (\<forall>m<k. clock_at_watchdog (envs ! m) < t0 + 10)
        \<and> t0 + 10 \<le> clock_at_watchdog (envs ! k) \<longrightarrow>
      no_encounters_alert (fst (run_loop v bt ?s envs) ! k)
      \<and> (\<forall>m<k. \<not> no_encounters_alert (fst (run_loop v bt ?s envs) ! m))"
    using quiet_first_alert [OF q inv, of _ v] nc by simp
  have 4: "\<forall>k l. k < l \<and> l < length envs \<and> no_encounters_alert (fst (run_loop v bt ?s envs) ! k)
        \<and> (\<forall>m. k < m \<and> m < l \<longrightarrow>
              clock_at_watchdog (envs ! m) < clock_at_watchdog (envs ! k) + 10)
        \<and> clock_at_watchdog (envs ! k) + 10 \<le> clock_at_watchdog (envs ! l) \<longrightarrow>
      no_encounters_alert (fst (run_loop v bt ?s envs) ! l)
      \<and> (\<forall>m. k < m \<and> m < l \<longrightarrow> \<not> no_encounters_alert (fst (run_loop v bt ?s envs) ! m))"
    using quiet_next_alert [OF q inv, of _ _ v] by blast
  have 5: "\<forall>k l. k < l \<and> l < length envs \<and> no_encounters_alert (fst (run_loop v bt ?s envs) ! k)
        \<and> no_encounters_alert (fst (run_loop v bt ?s envs) ! l) \<longrightarrow>
      clock_at_watchdog (envs ! k) + 10 \<le> clock_at_watchdog (envs ! l)"
    using quiet_alert_gap [OF q inv, of _ _ v] by blast
  have 6: "\<forall>s now. next_check_time s \<le> now \<longrightarrow>
      next_check_time (fst (watchdog now s)) = now + 10"
    by (simp add: watchdog_def)
  have 7: "\<forall>s now. now < next_check_time s \<longrightarrow> watchdog now s = (s, [])"
    by (simp add: watchdog_def)
  from 1 2 3 4 5 6 7 show ?thesis
    unfolding Let_def by (intro conjI)
qed

theorem watchdog_alert_schedule_witness:
  "map no_encounters_alert (fst (run_loop
       \<lparr>cvtColor_RGB2GRAY = (\<lambda>img. []), image_to_string = (\<lambda>img. [])\<rparr>
       \<lparr>pokeball_region = (1380, 330, 60, 20), name_region = (1224, 339, 145, 20),
        target_pokemons = [''Garchomp''], move_choice = ''1''\<rparr>
       (initial_state 0)
       [\<lparr>stop_is_set = False, pause_is_set = False, pokeball_frame = None, name_frame = None,
         clock_at_encounter = 0, clock_at_watchdog = 9.9\<rparr>,
        \<lparr>stop_is_set = False, pause_is_set = False, pokeball_frame = None, name_frame = None,
         clock_at_encounter = 0, clock_at_watchdog = 10\<rparr>,
        \<lparr>stop_is_set = False, pause_is_set = False, pokeball_frame = None, name_frame = None,
         clock_at_encounter = 0, clock_at_watchdog = 15\<rparr>,
        \<lparr>stop_is_set = False, pause_is_set = False, pokeball_frame = None, name_frame = None,
         clock_at_encounter = 0, clock_at_watchdog = 20\<rparr>]))
     = [False, True, False, True]"
proof -
  let ?v = "\<lparr>cvtColor_RGB2GRAY = (\<lambda>img. []), image_to_string = (\<lambda>img. [])\<rparr>"
  let ?bt = "\<lparr>pokeball_region = (1380, 330, 60, 20), name_region = (1224, 339, 145, 20),
        target_pokemons = [''Garchomp''], move_choice = ''1''\<rparr>"
  let ?envs = "[\<lparr>stop_is_set = False, pause_is_set = False, pokeball_frame = None, name_frame = None,
         clock_at_encounter = 0, clock_at_watchdog = 9.9\<rparr>,
        \<lparr>stop_is_set = False, pause_is_set = False, pokeball_frame = None, name_frame = None,
         clock_at_encounter = 0, clock_at_watchdog = 10\<rparr>,
        \<lparr>stop_is_set = False, pause_is_set = False, pokeball_frame = None, name_frame = None,
         clock_at_encounter = 0, clock_at_watchdog = 15\<rparr>,
        \<lparr>stop_is_set = False, pause_is_set = False, pokeball_frame = None, name_frame = None,
         clock_at_encounter = 0, clock_at_watchdog = 20\<rparr>]"
  define trs where "trs = fst (run_loop ?v ?bt (initial_state 0) ?envs)"
  have q: "list_all (quiet_tick ?bt) ?envs"
    by (simp add: quiet_tick_def is_reddish_in_region_def capture_window_mac_def)
  note inst = watchdog_alert_schedule [OF q, of ?v 0, unfolded Let_def, folded trs_def]
  from inst have "length trs = length ?envs" by (rule conjunct1)
  then have len: "length trs = 4" by simp
  from inst have first: "\<forall>k<length ?envs.
      (\<forall>m<k. clock_at_watchdog (?envs ! m) < 0 + 10) \<and> 0 + 10 \<le> clock_at_watchdog (?envs ! k) \<longrightarrow>
      no_encounters_alert (trs ! k) \<and> (\<forall>m<k. \<not> no_encounters_alert (trs ! m))"
    by (elim conjE)
  from inst have nxt: "\<forall>k l. k < l \<and> l < length ?envs \<and> no_encounters_alert (trs ! k)
        \<and> (\<forall>m. k < m \<and> m < l \<longrightarrow>
              clock_at_watchdog (?envs ! m) < clock_at_watchdog (?envs ! k) + 10)
        \<and> clock_at_watchdog (?envs ! k) + 10 \<le> clock_at_watchdog (?envs ! l) \<longrightarrow>
      no_encounters_alert (trs ! l) \<and> (\<forall>m. k < m \<and> m < l \<longrightarrow> \<not> no_encounters_alert (trs ! m))"
    by (elim conjE)
  have a01: "no_encounters_alert (trs ! 1) \<and> \<not> no_encounters_alert (trs ! 0)"
    using first [rule_format, of 1] by simp
  have between: "\<forall>m. (1::nat) < m \<and> m < 3 \<longrightarrow> m = 2"
    by auto
  have "no_encounters_alert (trs ! 3) \<and> (\<forall>m. 1 < m \<and> m < 3 \<longrightarrow> \<not> no_encounters_alert (trs ! m))"
    using a01 between by (intro nxt [rule_format, of 1 3]) auto
  then have a23: "no_encounters_alert (trs ! 3) \<and> \<not> no_encounters_alert (trs ! 2)"
    by auto
  obtain t0 t1 t2 t3 where trs: "trs = [t0, t1, t2, t3]"
    using len by (auto simp: length_Suc_conv numeral_eq_Suc)
  from a01 a23 show ?thesis
    unfolding trs_def [symmetric] trs by (simp add: numeral_eq_Suc)
qed

section \<open>Properties of the configuration and of starting the bot\<close>

text \<open>
  Claim C10. When the configuration file does not exist, \<open>load_config\<close> returns the
  empty dictionary without raising, and the start-up code then fills every one of the
  four configuration fields with its built-in default.
\<close>

theorem missing_config_file_gives_defaults:
  "load_config io None = Inr (JObj [])
   \<and> init_config_data io None =
       Inr (JObj [(''pokeball_region'', JArr [JInt 1380, JInt 330, JInt 60, JInt 20]),
                  (''name_region'', JArr [JInt 1224, JInt 339, JInt 145, JInt 20]),
                  (''target_pokemons'',
                     JArr [JStr ''Electivire'', JStr ''Xurkitree'', JStr ''Garchomp'']),
                  (''preferred_move'', JStr ''1'')])"
  by (simp add: init_config_data_def load_config_def fill_defaults_def set_default_def
      py_setitem_def dict_set_def)

theorem missing_config_file_gives_defaults_witness:
  "load_config \<lparr>json_load = (\<lambda>content. Inl ValueError), json_dumps = (\<lambda>data. [])\<rparr> None
     = Inr (JObj [])"
  using missing_config_file_gives_defaults
    [of "\<lparr>json_load = (\<lambda>content. Inl ValueError), json_dumps = (\<lambda>data. [])\<rparr>"]
  by simp

lemma start_bot_window_missing:
  "window_missing g \<Longrightarrow>
   start_bot io g = g\<lparr>log_queue := log_queue g @ [Must_find_window_first]\<rparr>"
  by (simp add: start_bot_def)

lemma start_bot_bad_integer:
  "\<not> window_missing g \<Longrightarrow>
   read_region (pb_x g) (pb_y g) (pb_w g) (pb_h g) = None
     \<or> read_region (nm_x g) (nm_y g) (nm_w g) (nm_h g) = None \<Longrightarrow>
   start_bot io g = g\<lparr>stop_event := False, pause_event := False,
                      log_queue := log_queue g @ [Invalid_integer_in_region_fields]\<rparr>"
  by (auto simp: start_bot_def Let_def split: option.splits)

lemma start_bot_launches:
  "\<not> window_missing g \<Longrightarrow>
   read_region (pb_x g) (pb_y g) (pb_w g) (pb_h g) = Some pb \<Longrightarrow>
   read_region (nm_x g) (nm_y g) (nm_w g) (nm_h g) = Some nm \<Longrightarrow>
   started_threads (start_bot io g)
     = started_threads g @ [\<lparr>pokeball_region = pb, name_region = nm,
                              target_pokemons = gui_target_pokemons g,
                              move_choice = move_choice_var g\<rparr>]
   \<and> bot_thread (start_bot io g)
     = Some \<lparr>pokeball_region = pb, name_region = nm,
             target_pokemons = gui_target_pokemons g, move_choice = move_choice_var g\<rparr>
   \<and> log_queue (start_bot io g) = log_queue g @ [Starting_bot]"
  by (simp add: start_bot_def Let_def update_config_data_def)


lemma py_int_examples:
  "py_int ''0'' = Some 0" "py_int ''20'' = Some 20" "py_int ''60'' = Some 60"
  "py_int ''100'' = Some 100" "py_int ''145'' = Some 145" "py_int ''330'' = Some 330"
  "py_int ''339'' = Some 339" "py_int ''1224'' = Some 1224" "py_int ''1380'' = Some 1380"
  "py_int '' -12_3 '' = Some (- 123)" "py_int ''12a'' = None" "py_int '''' = None"
  "py_int ''1__2'' = None" "py_int ''+7'' = Some 7" "py_int ''_7'' = None" "py_int ''7_'' = None"
  by code_simp+




section \<open>Properties of the calibration tool\<close>

lemma sorted2_min_max: "sorted2 p q = (min p q, max p q)"
  by (simp add: sorted2_def min_def max_def)

lemma release_rect_eq:
  "release_rect (x1, y1) (x2, y2) = (min x1 x2, min y1 y2, \<bar>x2 - x1\<bar>, \<bar>y2 - y1\<bar>)"
  by (simp add: release_rect_def sorted2_min_max min_def max_def)

lemma release_rect_swaps:
  "release_rect (x2, y2) (x1, y1) = release_rect (x1, y1) (x2, y2)"
  "release_rect (x2, y1) (x1, y2) = release_rect (x1, y1) (x2, y2)"
  "release_rect (x1, y2) (x2, y1) = release_rect (x1, y1) (x2, y2)"
  by (simp_all add: release_rect_eq min.commute abs_minus_commute)

lemma calibrate_two_gestures:
  "calibrate_two_regions (Some img) [(p1, q1), (p2, q2)]
     = ((Some (release_rect p1 q1), Some (release_rect p2 q2)),
        [Calibrated_box 1 (release_rect p1 q1), Calibrated_box 2 (release_rect p2 q2)])"
  by (simp add: calibrate_two_regions_def capture_window_mac_def gesture_def
      on_button_release_def on_button_press_def calib_init_def Let_def)

text \<open>
  Claim C7. For a gesture pressed at \<open>(x1, y1)\<close> and released at \<open>(x2, y2)\<close>, the
  rectangle the calibration tool records is
  \<open>(min x1 x2, min y1 y2, |x2 - x1|, |y2 - y1|)\<close>, for the first region and for the
  second one alike; and the gestures that drag over the same pair of opposite corners
  in any of the four directions record the same rectangle.
\<close>

theorem calibration_normalizes:
  "fst (calibrate_two_regions (Some img) [((x1, y1), (x2, y2)), ((u1, v1), (u2, v2))])
     = (Some (min x1 x2, min y1 y2, \<bar>x2 - x1\<bar>, \<bar>y2 - y1\<bar>),
        Some (min u1 u2, min v1 v2, \<bar>u2 - u1\<bar>, \<bar>v2 - v1\<bar>))
   \<and> calibrate_two_regions (Some img) [((x2, y2), (x1, y1)), ((u2, v2), (u1, v1))]
     = calibrate_two_regions (Some img) [((x1, y1), (x2, y2)), ((u1, v1), (u2, v2))]
   \<and> calibrate_two_regions (Some img) [((x2, y1), (x1, y2)), ((u2, v1), (u1, v2))]
     = calibrate_two_regions (Some img) [((x1, y1), (x2, y2)), ((u1, v1), (u2, v2))]
   \<and> calibrate_two_regions (Some img) [((x1, y2), (x2, y1)), ((u1, v2), (u2, v1))]
     = calibrate_two_regions (Some img) [((x1, y1), (x2, y2)), ((u1, v1), (u2, v2))]
   \<and> release_rect (x1, y1) (x2, y2) = (min x1 x2, min y1 y2, \<bar>x2 - x1\<bar>, \<bar>y2 - y1\<bar>)"
  by (simp add: calibrate_two_gestures release_rect_swaps) (simp add: release_rect_eq)

end
